theory Spec2Isabelle
  imports Main "HOL-Library.Word" "HOL-Library.Monad_Syntax"
begin

unbundle bit_operations_syntax

section \<open>Wire format\<close>

text \<open>
  The DHCPv6 client of \<^verbatim>\<open>src/core/net/dhcp6_client.cpp\<close> reads and writes options in
  network byte order. A multi-byte field is a list of bytes, most significant first.
\<close>

type_synonym byte = "8 word"

definition be_word :: "byte list \<Rightarrow> 'a::len word" where
  "be_word bs = foldl (\<lambda>acc b. push_bit 8 acc OR ucast b) 0 bs"

definition be_bytes :: "nat \<Rightarrow> 'a::len word \<Rightarrow> byte list" where
  "be_bytes n w = map (\<lambda>i. ucast (drop_bit (8 * i) w)) (rev [0..<n])"

named_theorems wire_defs

text \<open>
  Modelled from the spec: the message types, option codes, DUID types, hardware types and
  status codes are declared in \<^verbatim>\<open>net/dhcp6.hpp\<close>, which is not part of the sources at hand.
  The spec (section 6) names them; the numbers are the protocol's assigned values.
\<close>

definition kTypeSolicit :: byte where [wire_defs]: "kTypeSolicit = 1"
definition kTypeReply :: byte where [wire_defs]: "kTypeReply = 7"

definition kOptionClientIdentifier :: "16 word" where [wire_defs]: "kOptionClientIdentifier = 1"
definition kOptionServerIdentifier :: "16 word" where [wire_defs]: "kOptionServerIdentifier = 2"
definition kOptionIaNa :: "16 word" where [wire_defs]: "kOptionIaNa = 3"
definition kOptionIaAddress :: "16 word" where [wire_defs]: "kOptionIaAddress = 5"
definition kOptionElapsedTime :: "16 word" where [wire_defs]: "kOptionElapsedTime = 8"
definition kOptionStatusCode :: "16 word" where [wire_defs]: "kOptionStatusCode = 13"
definition kOptionRapidCommit :: "16 word" where [wire_defs]: "kOptionRapidCommit = 14"

definition kDuidLinkLayerAddressPlusTime :: "16 word" where [wire_defs]: "kDuidLinkLayerAddressPlusTime = 1"
definition kDuidLinkLayerAddress :: "16 word" where [wire_defs]: "kDuidLinkLayerAddress = 3"
definition kHardwareTypeEthernet :: "16 word" where [wire_defs]: "kHardwareTypeEthernet = 1"
definition kHardwareTypeEui64 :: "16 word" where [wire_defs]: "kHardwareTypeEui64 = 27"
definition kStatusSuccess :: "16 word" where [wire_defs]: "kStatusSuccess = 0"

text \<open>
  Modelled from the spec: the sizes of the packed option structures of \<^verbatim>\<open>net/dhcp6.hpp\<close>.
  Header = 1-byte type + 3-byte transaction id; Option = 2-byte code + 2-byte length;
  a DUID option = Option + type + hardware type + 8-byte link-layer address;
  IaNa = Option + IAID + T1 + T2; IaAddress = Option + address + two lifetimes;
  StatusCode = Option + 2-byte status; ElapsedTime = Option + 2-byte time.
\<close>

definition sizeof_Header :: nat where [wire_defs]: "sizeof_Header = 4"
definition sizeof_Option :: nat where [wire_defs]: "sizeof_Option = 4"
definition sizeof_ClientIdentifier :: nat where [wire_defs]: "sizeof_ClientIdentifier = 16"
definition sizeof_ServerIdentifier :: nat where [wire_defs]: "sizeof_ServerIdentifier = 16"
definition sizeof_IaNa :: nat where [wire_defs]: "sizeof_IaNa = 16"
definition sizeof_IaAddress :: nat where [wire_defs]: "sizeof_IaAddress = 28"
definition sizeof_StatusCode :: nat where [wire_defs]: "sizeof_StatusCode = 6"

section \<open>Messages\<close>

text \<open>
  Modelled from the spec: \<^verbatim>\<open>Message\<close> (\<^verbatim>\<open>common/message.hpp\<close>) is not part of the sources at
  hand. A received message is its bytes and the current offset; \<^verbatim>\<open>GetLength\<close> and the
  offset are 16-bit. \<^verbatim>\<open>Read(offset, n, buf)\<close> copies the bytes that exist and returns how
  many it copied, so a read succeeded when the result has \<open>n\<close> bytes.
\<close>

record message =
  mBytes :: "byte list"
  mOffset :: "16 word"

definition GetLength :: "message \<Rightarrow> 16 word" where
  "GetLength m = of_nat (length (mBytes m))"

definition Read :: "message \<Rightarrow> 16 word \<Rightarrow> nat \<Rightarrow> byte list" where
  "Read m off n = take n (drop (unat off) (mBytes m))"

definition MoveOffset :: "message \<Rightarrow> nat \<Rightarrow> message" where
  "MoveOffset m n = m\<lparr>mOffset := mOffset m + of_nat n\<rparr>"

text \<open>The getters of \<^verbatim>\<open>Option\<close>, applied to the bytes a read returned.\<close>

definition GetCode :: "byte list \<Rightarrow> 16 word" where
  "GetCode opt = be_word (take 2 opt)"

definition GetOptLength :: "byte list \<Rightarrow> 16 word" where
  "GetOptLength opt = be_word (take 2 (drop 2 opt))"

datatype otError = OT_ERROR_NONE | OT_ERROR_PARSE | OT_ERROR_DROP | OT_ERROR_NO_BUFS

text \<open>
  Modelled from the spec: an outbound message grows by \<^verbatim>\<open>Append\<close>, which fails with
  \<^verbatim>\<open>OT_ERROR_NO_BUFS\<close> when the buffer pool is exhausted; the pool is the number of bytes
  a message may hold.
\<close>

definition Append :: "nat \<Rightarrow> byte list \<Rightarrow> byte list \<Rightarrow> otError + byte list" where
  "Append cap msg bs = (if length msg + length bs \<le> cap then Inr (msg @ bs) else Inl OT_ERROR_NO_BUFS)"

definition SuccessOrExit :: "otError + 'a \<Rightarrow> ('a \<Rightarrow> otError + 'b) \<Rightarrow> otError + 'b" where
  "SuccessOrExit r k = (case r of Inl e \<Rightarrow> Inl e | Inr x \<Rightarrow> k x)"

section \<open>Client state\<close>

datatype IaStatus = kIaStatusInvalid | kIaStatusSolicit | kIaStatusSoliciting | kIaStatusSolicitReplied

datatype AddressOrigin =
  OT_ADDRESS_ORIGIN_THREAD | OT_ADDRESS_ORIGIN_SLAAC | OT_ADDRESS_ORIGIN_DHCPV6 | OT_ADDRESS_ORIGIN_MANUAL

record NetifUnicastAddress =
  mAddress :: "128 word"
  mPrefixLength :: "8 word"
  mAddressOrigin :: AddressOrigin
  mPreferred :: bool
  mValid :: bool

record IdentityAssociation =
  mNetifAddress :: NetifUnicastAddress
  mPreferredLifetime :: "32 word"
  mValidLifetime :: "32 word"
  mPrefixAgentRloc :: "16 word"
  mStatus :: IaStatus

record otIp6Prefix =
  mPrefix :: "128 word"
  mLength :: "8 word"

record OnMeshPrefixConfig =
  cfgPrefix :: otIp6Prefix
  mDhcp :: bool
  mRloc16 :: "16 word"

datatype netif_call =
  AddUnicastAddress NetifUnicastAddress | RemoveUnicastAddress NetifUnicastAddress

text \<open>
  The client. \<open>mIdentityAssociationCurrent\<close> points into the array, so it is an index;
  the socket and the trickle timer are what this file reads of them (bound, running);
  the calls made on the interface table and the datagrams handed to the socket are logged.
\<close>

record Client =
  mIdentityAssociations :: "IdentityAssociation list"
  mIdentityAssociationCurrent :: "nat option"
  mTransactionId :: "byte list"
  mStartTime :: "32 word"
  mSocketBound :: bool
  mTrickleRunning :: bool
  mNetifCalls :: "netif_call list"
  mSent :: "(16 word \<times> byte list) list"

text \<open>
  What each event reads from outside the client: the clock, the random transaction id,
  the EUI-64, the on-mesh prefixes of the network data in iteration order, the buffer
  pool, and the result of the socket's \<^verbatim>\<open>SendTo\<close>.
\<close>

record Env =
  envNow :: "32 word"
  envRandom :: "byte list"
  envEui64 :: "byte list"
  envNetworkData :: "OnMeshPrefixConfig list"
  envBuffers :: nat
  envSendError :: otError

definition IdentityAssociation_zero :: IdentityAssociation where
  "IdentityAssociation_zero =
     \<lparr>mNetifAddress = \<lparr>mAddress = 0, mPrefixLength = 0, mAddressOrigin = OT_ADDRESS_ORIGIN_THREAD,
                        mPreferred = False, mValid = False\<rparr>,
      mPreferredLifetime = 0, mValidLifetime = 0, mPrefixAgentRloc = 0,
      mStatus = kIaStatusInvalid\<rparr>"

text \<open>The constructor: a pool of \<open>N\<close> zeroed bindings, no current binding.\<close>

definition Client_init :: "nat \<Rightarrow> Client" where
  "Client_init N =
     \<lparr>mIdentityAssociations = replicate N IdentityAssociation_zero,
      mIdentityAssociationCurrent = None,
      mTransactionId = [0, 0, 0],
      mStartTime = 0,
      mSocketBound = False,
      mTrickleRunning = False,
      mNetifCalls = [],
      mSent = []\<rparr>"

section \<open>Prefix matching\<close>

text \<open>
  Modelled from the spec: \<^verbatim>\<open>Ip6::Address::PrefixMatch\<close> (\<^verbatim>\<open>net/ip6_address.hpp\<close>) is not
  part of the sources at hand. It returns the number of leading bits two addresses share.
\<close>

definition PrefixMatch :: "128 word \<Rightarrow> 128 word \<Rightarrow> nat" where
  "PrefixMatch a b = length (takeWhile (\<lambda>i. bit a i = bit b i) (rev [0..<128]))"

definition MatchNetifAddressWithPrefix :: "NetifUnicastAddress \<Rightarrow> otIp6Prefix \<Rightarrow> bool" where
  "MatchNetifAddressWithPrefix aNetifAddress aIp6Prefix \<longleftrightarrow>
     mLength aIp6Prefix = mPrefixLength aNetifAddress \<and>
     PrefixMatch (mAddress aNetifAddress) (mPrefix aIp6Prefix) \<ge> unat (mLength aIp6Prefix)"

section \<open>Reconciling the pool with the network data\<close>

text \<open>
  \<^verbatim>\<open>UpdateAddresses\<close>, first loop. The inner \<^verbatim>\<open>while\<close> over the on-mesh prefixes sets
  \<open>found\<close> at the first DHCP prefix that matches the binding's address.
\<close>

fun prefix_found :: "NetifUnicastAddress \<Rightarrow> OnMeshPrefixConfig list \<Rightarrow> bool" where
  "prefix_found a [] = False"
| "prefix_found a (config # rest) =
     (if \<not> mDhcp config then prefix_found a rest
      else if MatchNetifAddressWithPrefix a (cfgPrefix config) then True
      else prefix_found a rest)"

text \<open>
  A binding is removed when the loop does not skip it (it is not invalid and its valid
  lifetime is not zero) and no DHCP prefix of the network data matches it.
\<close>

definition to_remove :: "OnMeshPrefixConfig list \<Rightarrow> IdentityAssociation \<Rightarrow> bool" where
  "to_remove configs idAssociation \<longleftrightarrow>
     \<not> (mStatus idAssociation = kIaStatusInvalid \<or> mValidLifetime idAssociation = 0) \<and>
     \<not> prefix_found (mNetifAddress idAssociation) configs"

definition remove_addresses ::
  "OnMeshPrefixConfig list \<Rightarrow> IdentityAssociation list \<Rightarrow> IdentityAssociation list" where
  "remove_addresses configs ias =
     map (\<lambda>idAssociation. if to_remove configs idAssociation
                           then idAssociation\<lparr>mStatus := kIaStatusInvalid\<rparr>
                           else idAssociation) ias"

definition remove_calls ::
  "OnMeshPrefixConfig list \<Rightarrow> IdentityAssociation list \<Rightarrow> netif_call list" where
  "remove_calls configs ias =
     map (\<lambda>idAssociation. RemoveUnicastAddress (mNetifAddress idAssociation))
         (filter (to_remove configs) ias)"

text \<open>
  Second loop, the inner \<^verbatim>\<open>for\<close> over the pool: \<open>k\<close> is the index reached and
  \<open>idAssociation\<close> the pointer recorded so far. The result is \<open>(found, idAssociation)\<close>.
\<close>

fun find_association ::
  "otIp6Prefix \<Rightarrow> IdentityAssociation list \<Rightarrow> nat \<Rightarrow> nat option \<Rightarrow> bool \<times> nat option" where
  "find_association p [] k idAssociation = (False, idAssociation)"
| "find_association p (ia # ias) k idAssociation =
     (if mStatus ia = kIaStatusInvalid
      then find_association p ias (Suc k) (if idAssociation = None then Some k else idAssociation)
      else if MatchNetifAddressWithPrefix (mNetifAddress ia) p then (True, Some k)
      else find_association p ias (Suc k) idAssociation)"

definition claim :: "OnMeshPrefixConfig \<Rightarrow> IdentityAssociation \<Rightarrow> IdentityAssociation" where
  "claim config ia =
     ia\<lparr>mNetifAddress := (mNetifAddress ia)\<lparr>mAddress := mPrefix (cfgPrefix config),
                                             mPrefixLength := mLength (cfgPrefix config)\<rparr>,
        mStatus := kIaStatusSolicit,
        mValidLifetime := 0,
        mPrefixAgentRloc := mRloc16 config\<rparr>"

text \<open>One round of the second loop's \<^verbatim>\<open>while\<close>, for one on-mesh prefix.\<close>

definition add_prefix :: "OnMeshPrefixConfig \<Rightarrow> IdentityAssociation list \<Rightarrow> IdentityAssociation list" where
  "add_prefix config ias =
     (if \<not> mDhcp config then ias
      else case find_association (cfgPrefix config) ias 0 None of
             (True, Some i) \<Rightarrow> ias[i := (ias ! i)\<lparr>mPrefixAgentRloc := mRloc16 config\<rparr>]
           | (False, Some i) \<Rightarrow> ias[i := claim config (ias ! i)]
           | (_, None) \<Rightarrow> ias)"

definition add_prefixes :: "OnMeshPrefixConfig list \<Rightarrow> IdentityAssociation list \<Rightarrow> IdentityAssociation list" where
  "add_prefixes configs ias = fold add_prefix configs ias"

section \<open>The retry engine\<close>

text \<open>The loop of \<^verbatim>\<open>ProcessNextIdentityAssociation\<close>: the first binding waiting to solicit.\<close>

fun next_solicit :: "IdentityAssociation list \<Rightarrow> nat \<Rightarrow> nat option" where
  "next_solicit [] k = None"
| "next_solicit (ia # ias) k =
     (if mStatus ia \<noteq> kIaStatusSolicit then next_solicit ias (Suc k) else Some k)"

definition ProcessNextIdentityAssociation :: "Env \<Rightarrow> Client \<Rightarrow> bool \<times> Client" where
  "ProcessNextIdentityAssociation env c =
     (if \<not> (case mIdentityAssociationCurrent c of
               None \<Rightarrow> True
             | Some cur \<Rightarrow> mStatus (mIdentityAssociations c ! cur) \<noteq> kIaStatusSoliciting)
      then (False, c)
      else let c1 = c\<lparr>mTrickleRunning := False\<rparr>
           in case next_solicit (mIdentityAssociations c1) 0 of
                None \<Rightarrow> (False, c1)
              | Some i \<Rightarrow> (True, c1\<lparr>mTransactionId := envRandom env,
                                     mIdentityAssociationCurrent := Some i,
                                     mTrickleRunning := True\<rparr>))"

definition Start :: "Env \<Rightarrow> Client \<Rightarrow> Client" where
  "Start env c =
     (if mSocketBound c then c
      else snd (ProcessNextIdentityAssociation env (c\<lparr>mSocketBound := True\<rparr>)))"

definition Stop :: "Client \<Rightarrow> Client" where
  "Stop c = c\<lparr>mSocketBound := False\<rparr>"

definition UpdateAddresses :: "Env \<Rightarrow> Client \<Rightarrow> Client" where
  "UpdateAddresses env c =
     (let configs = envNetworkData env;
          c1 = c\<lparr>mNetifCalls := mNetifCalls c @ remove_calls configs (mIdentityAssociations c),
                 mIdentityAssociations := remove_addresses configs (mIdentityAssociations c)\<rparr>;
          c2 = c1\<lparr>mIdentityAssociations := add_prefixes configs (mIdentityAssociations c1)\<rparr>;
          doesAgentExist = list_ex mDhcp configs
      in if doesAgentExist then Start env c2 else Stop c2)"

section \<open>Building a Solicit\<close>

definition AppendHeader :: "Env \<Rightarrow> Client \<Rightarrow> byte list \<Rightarrow> otError + byte list" where
  "AppendHeader env c msg = Append (envBuffers env) msg (kTypeSolicit # mTransactionId c)"

definition AppendElapsedTime :: "Env \<Rightarrow> Client \<Rightarrow> byte list \<Rightarrow> otError + byte list" where
  "AppendElapsedTime env c msg =
     Append (envBuffers env) msg
       (be_bytes 2 kOptionElapsedTime @ be_bytes 2 (2 :: 16 word) @
        be_bytes 2 (ucast ((envNow env - mStartTime c) div 1000) :: 16 word))"

definition AppendClientIdentifier :: "Env \<Rightarrow> Client \<Rightarrow> byte list \<Rightarrow> otError + byte list" where
  "AppendClientIdentifier env c msg =
     Append (envBuffers env) msg
       (be_bytes 2 kOptionClientIdentifier @
        be_bytes 2 (of_nat (sizeof_ClientIdentifier - sizeof_Option) :: 16 word) @
        be_bytes 2 kDuidLinkLayerAddress @ be_bytes 2 kHardwareTypeEui64 @ envEui64 env)"

text \<open>The counting loop of \<^verbatim>\<open>AppendIaNa\<close>; \<open>count\<close> is a \<^verbatim>\<open>uint8_t\<close>.\<close>

fun count_associations :: "16 word \<Rightarrow> IdentityAssociation list \<Rightarrow> 8 word \<Rightarrow> 8 word" where
  "count_associations aRloc16 [] count = count"
| "count_associations aRloc16 (ia # ias) count =
     (if mStatus ia = kIaStatusInvalid \<or> mStatus ia = kIaStatusSolicitReplied
      then count_associations aRloc16 ias count
      else if mPrefixAgentRloc ia = aRloc16 then count_associations aRloc16 ias (count + 1)
      else count_associations aRloc16 ias count)"

definition IaNa_length :: "8 word \<Rightarrow> 16 word" where
  "IaNa_length count = of_nat sizeof_IaNa + of_nat sizeof_IaAddress * ucast count - of_nat sizeof_Option"

text \<open>The IA_NA option as it is appended: code, length, and IAID, T1 and T2 set to 0.\<close>

definition IaNa_bytes :: "16 word \<Rightarrow> byte list" where
  "IaNa_bytes len =
     be_bytes 2 kOptionIaNa @ be_bytes 2 len @
     be_bytes 4 (0 :: 32 word) @ be_bytes 4 (0 :: 32 word) @ be_bytes 4 (0 :: 32 word)"

definition AppendIaNa :: "Env \<Rightarrow> Client \<Rightarrow> byte list \<Rightarrow> 16 word \<Rightarrow> otError + byte list" where
  "AppendIaNa env c msg aRloc16 =
     (if mIdentityAssociationCurrent c = None then Inl OT_ERROR_DROP
      else let count = count_associations aRloc16 (mIdentityAssociations c) 0;
               len = IaNa_length count
           in Append (envBuffers env) msg (IaNa_bytes len))"

definition IaAddress_bytes :: "128 word \<Rightarrow> 32 word \<Rightarrow> 32 word \<Rightarrow> byte list" where
  "IaAddress_bytes a preferred valid =
     be_bytes 2 kOptionIaAddress @
     be_bytes 2 (of_nat (sizeof_IaAddress - sizeof_Option) :: 16 word) @
     be_bytes 16 a @ be_bytes 4 preferred @ be_bytes 4 valid"

text \<open>The loop of \<^verbatim>\<open>AppendIaAddress\<close>: it leaves at the first failed append.\<close>

fun append_addresses ::
  "nat \<Rightarrow> 16 word \<Rightarrow> IdentityAssociation list \<Rightarrow> byte list \<Rightarrow> otError + byte list" where
  "append_addresses cap aRloc16 [] msg = Inr msg"
| "append_addresses cap aRloc16 (ia # ias) msg =
     (if (mStatus ia = kIaStatusSolicit \<or> mStatus ia = kIaStatusSoliciting) \<and>
         mPrefixAgentRloc ia = aRloc16
      then SuccessOrExit (Append cap msg (IaAddress_bytes (mAddress (mNetifAddress ia)) 0 0))
             (append_addresses cap aRloc16 ias)
      else append_addresses cap aRloc16 ias msg)"

definition AppendIaAddress :: "Env \<Rightarrow> Client \<Rightarrow> byte list \<Rightarrow> 16 word \<Rightarrow> otError + byte list" where
  "AppendIaAddress env c msg aRloc16 =
     (if mIdentityAssociationCurrent c = None then Inl OT_ERROR_DROP
      else append_addresses (envBuffers env) aRloc16 (mIdentityAssociations c) msg)"

definition AppendRapidCommit :: "Env \<Rightarrow> byte list \<Rightarrow> otError + byte list" where
  "AppendRapidCommit env msg =
     Append (envBuffers env) msg (be_bytes 2 kOptionRapidCommit @ be_bytes 2 (0 :: 16 word))"

text \<open>
  \<^verbatim>\<open>Solicit\<close>: a message that cannot be allocated, built or sent is dropped; one that is
  sent is logged with the locator it goes to.
\<close>

definition Solicit :: "Env \<Rightarrow> Client \<Rightarrow> 16 word \<Rightarrow> Client" where
  "Solicit env c aRloc16 =
     (if envBuffers env = 0 then c
      else case SuccessOrExit (AppendHeader env c [])
                  (\<lambda>m1. SuccessOrExit (AppendElapsedTime env c m1)
                  (\<lambda>m2. SuccessOrExit (AppendClientIdentifier env c m2)
                  (\<lambda>m3. SuccessOrExit (AppendIaNa env c m3 aRloc16)
                  (\<lambda>m4. SuccessOrExit (AppendIaAddress env c m4 aRloc16)
                  (\<lambda>m5. SuccessOrExit (AppendRapidCommit env m5)
                  (\<lambda>m6. if envSendError env = OT_ERROR_NONE then Inr m6
                         else Inl (envSendError env))))))) of
             Inl e \<Rightarrow> c
           | Inr m \<Rightarrow> c\<lparr>mSent := mSent c @ [(aRloc16, m)]\<rparr>)"

definition HandleTrickleTimer :: "Env \<Rightarrow> Client \<Rightarrow> bool \<times> Client" where
  "HandleTrickleTimer env c =
     (case mIdentityAssociationCurrent c of
        None \<Rightarrow> (False, c)
      | Some cur \<Rightarrow>
          (case mStatus (mIdentityAssociations c ! cur) of
             kIaStatusSolicit \<Rightarrow>
               (let ias = mIdentityAssociations c;
                    c1 = c\<lparr>mStartTime := envNow env,
                           mIdentityAssociations := ias[cur := (ias ! cur)\<lparr>mStatus := kIaStatusSoliciting\<rparr>]\<rparr>
                in (True, Solicit env c1 (mPrefixAgentRloc (mIdentityAssociations c1 ! cur))))
           | kIaStatusSoliciting \<Rightarrow>
               (True, Solicit env c (mPrefixAgentRloc (mIdentityAssociations c ! cur)))
           | kIaStatusSolicitReplied \<Rightarrow>
               (case ProcessNextIdentityAssociation env (c\<lparr>mIdentityAssociationCurrent := None\<rparr>) of
                  (True, c1) \<Rightarrow> (True, c1)
                | (False, c1) \<Rightarrow> (False, Stop (c1\<lparr>mTrickleRunning := False\<rparr>)))
           | kIaStatusInvalid \<Rightarrow> (True, c)))"

text \<open>
  Modelled from the spec: the trickle timer (\<^verbatim>\<open>common/trickle_timer.hpp\<close>) is not part of the
  sources at hand. When it fires it calls the handler, and it stops when the handler
  returns false.
\<close>

definition TrickleTimerFired :: "Env \<Rightarrow> Client \<Rightarrow> Client" where
  "TrickleTimerFired env c =
     (case HandleTrickleTimer env c of
        (True, c1) \<Rightarrow> c1
      | (False, c1) \<Rightarrow> c1\<lparr>mTrickleRunning := False\<rparr>)"

section \<open>Parsing a Reply\<close>

text \<open>
  \<^verbatim>\<open>FindOption\<close>. The offset is a \<^verbatim>\<open>uint16_t\<close>, so the step to the next option wraps
  around; the loop need not end, and a scan that never returns is \<open>None\<close>.
\<close>

partial_function (option) FindOption_loop ::
  "message \<Rightarrow> 16 word \<Rightarrow> 16 word \<Rightarrow> 16 word \<Rightarrow> 16 word option" where
  "FindOption_loop aMessage aOffset aEnd aCode =
     (if aOffset \<le> aEnd
      then (let opt = Read aMessage aOffset sizeof_Option
            in if length opt \<noteq> sizeof_Option then Some 0
               else if GetCode opt = aCode then Some aOffset
               else FindOption_loop aMessage (aOffset + of_nat sizeof_Option + GetOptLength opt)
                      aEnd aCode)
      else Some 0)"

declare FindOption_loop.simps [code]

definition FindOption :: "message \<Rightarrow> 16 word \<Rightarrow> 16 word \<Rightarrow> 16 word \<Rightarrow> 16 word option" where
  "FindOption aMessage aOffset aLength aCode =
     FindOption_loop aMessage aOffset (aOffset + aLength) aCode"

definition ProcessServerIdentifier :: "message \<Rightarrow> 16 word \<Rightarrow> otError" where
  "ProcessServerIdentifier aMessage aOffset =
     (let opt = Read aMessage aOffset sizeof_ServerIdentifier
      in if length opt \<noteq> sizeof_ServerIdentifier then OT_ERROR_NONE
         else if ((be_word (take 2 (drop 4 opt)) :: 16 word) = kDuidLinkLayerAddressPlusTime \<and>
                  (be_word (take 2 (drop 6 opt)) :: 16 word) = kHardwareTypeEthernet) \<or>
                 (GetOptLength opt = of_nat (sizeof_ServerIdentifier - sizeof_Option) \<and>
                  (be_word (take 2 (drop 4 opt)) :: 16 word) = kDuidLinkLayerAddress \<and>
                  (be_word (take 2 (drop 6 opt)) :: 16 word) = kHardwareTypeEui64)
         then OT_ERROR_NONE
         else OT_ERROR_PARSE)"

definition ProcessClientIdentifier :: "Env \<Rightarrow> message \<Rightarrow> 16 word \<Rightarrow> otError" where
  "ProcessClientIdentifier env aMessage aOffset =
     (let opt = Read aMessage aOffset sizeof_ClientIdentifier
      in if length opt = sizeof_ClientIdentifier \<and>
            GetOptLength opt = of_nat (sizeof_ClientIdentifier - sizeof_Option) \<and>
            (be_word (take 2 (drop 4 opt)) :: 16 word) = kDuidLinkLayerAddress \<and>
            (be_word (take 2 (drop 6 opt)) :: 16 word) = kHardwareTypeEui64 \<and>
            take 8 (drop 8 opt) = envEui64 env
         then OT_ERROR_NONE
         else OT_ERROR_PARSE)"

definition ProcessStatusCode :: "message \<Rightarrow> 16 word \<Rightarrow> otError" where
  "ProcessStatusCode aMessage aOffset =
     (let opt = Read aMessage aOffset sizeof_StatusCode
      in if length opt \<ge> sizeof_StatusCode \<and>
            GetOptLength opt \<ge> of_nat (sizeof_StatusCode - sizeof_Option) \<and>
            (be_word (take 2 (drop 4 opt)) :: 16 word) = kStatusSuccess
         then OT_ERROR_NONE
         else OT_ERROR_PARSE)"

text \<open>
  The loop of \<^verbatim>\<open>ProcessIaAddress\<close>: the first binding that is not invalid, has a zero valid
  lifetime and matches the offered address on its prefix length takes the address; the
  result is the pool and the call made on the interface table, if any.
\<close>

definition accept_address :: "128 word \<Rightarrow> 32 word \<Rightarrow> 32 word \<Rightarrow> IdentityAssociation \<Rightarrow> IdentityAssociation" where
  "accept_address a preferred valid ia =
     ia\<lparr>mNetifAddress := (mNetifAddress ia)\<lparr>mAddress := a,
                                             mAddressOrigin := OT_ADDRESS_ORIGIN_DHCPV6,
                                             mPreferred := (preferred \<noteq> 0),
                                             mValid := (valid \<noteq> 0)\<rparr>,
        mPreferredLifetime := preferred,
        mValidLifetime := valid,
        mStatus := kIaStatusSolicitReplied\<rparr>"

fun assign_address ::
  "128 word \<Rightarrow> 32 word \<Rightarrow> 32 word \<Rightarrow> IdentityAssociation list \<Rightarrow>
   IdentityAssociation list \<times> netif_call list" where
  "assign_address a preferred valid [] = ([], [])"
| "assign_address a preferred valid (ia # ias) =
     (if mStatus ia = kIaStatusInvalid \<or> mValidLifetime ia \<noteq> 0
      then (case assign_address a preferred valid ias of (ias', calls) \<Rightarrow> (ia # ias', calls))
      else if PrefixMatch (mAddress (mNetifAddress ia)) a \<ge> unat (mPrefixLength (mNetifAddress ia))
      then (accept_address a preferred valid ia # ias,
            [AddUnicastAddress (mNetifAddress (accept_address a preferred valid ia))])
      else (case assign_address a preferred valid ias of (ias', calls) \<Rightarrow> (ia # ias', calls)))"

definition ProcessIaAddress :: "Client \<Rightarrow> message \<Rightarrow> 16 word \<Rightarrow> otError \<times> Client" where
  "ProcessIaAddress c aMessage aOffset =
     (let opt = Read aMessage aOffset sizeof_IaAddress
      in if \<not> (length opt = sizeof_IaAddress \<and>
                GetOptLength opt = of_nat (sizeof_IaAddress - sizeof_Option))
         then (OT_ERROR_PARSE, c)
         else case assign_address (be_word (take 16 (drop 4 opt))) (be_word (take 4 (drop 20 opt)))
                     (be_word (take 4 (drop 24 opt))) (mIdentityAssociations c) of
                (ias', calls) \<Rightarrow>
                  (OT_ERROR_NONE, c\<lparr>mIdentityAssociations := ias',
                                     mNetifCalls := mNetifCalls c @ calls\<rparr>))"

text \<open>
  The \<^verbatim>\<open>while (length > 0)\<close> loop of \<^verbatim>\<open>ProcessIaNa\<close>. Both \<open>length\<close> and the offset are
  \<^verbatim>\<open>uint16_t\<close> and are updated with wrap-around.
\<close>

partial_function (option) ProcessIaNa_loop ::
  "Client \<Rightarrow> message \<Rightarrow> 16 word \<Rightarrow> 16 word \<Rightarrow> (otError \<times> Client) option" where
  "ProcessIaNa_loop c aMessage aOffset len =
     (if len > 0
      then Option.bind (FindOption aMessage aOffset len kOptionIaAddress)
             (\<lambda>optionOffset.
                if optionOffset = 0 then Some (OT_ERROR_NONE, c)
                else case ProcessIaAddress c aMessage optionOffset of
                       (error, c1) \<Rightarrow>
                         if error \<noteq> OT_ERROR_NONE then Some (error, c1)
                         else ProcessIaNa_loop c1 aMessage (optionOffset + of_nat sizeof_IaAddress)
                                (len - ((optionOffset - aOffset) + of_nat sizeof_IaAddress)))
      else Some (OT_ERROR_NONE, c))"

declare ProcessIaNa_loop.simps [code]

text \<open>The window of the nested options: the declared length less the fixed fields, in 16 bits.\<close>

definition IaNa_window :: "16 word \<Rightarrow> 16 word" where
  "IaNa_window declared = declared - of_nat (sizeof_IaNa - sizeof_Option)"

definition ProcessIaNa :: "Client \<Rightarrow> message \<Rightarrow> 16 word \<Rightarrow> (otError \<times> Client) option" where
  "ProcessIaNa c aMessage aOffset =
     (let opt = Read aMessage aOffset sizeof_IaNa
      in if length opt \<noteq> sizeof_IaNa then Some (OT_ERROR_PARSE, c)
         else let aOffset1 = aOffset + of_nat sizeof_IaNa;
                  len = IaNa_window (GetOptLength opt)
              in if \<not> (uint len \<le> uint (GetLength aMessage) - uint aOffset1)
                 then Some (OT_ERROR_PARSE, c)
                 else Option.bind (FindOption aMessage aOffset1 len kOptionStatusCode)
                        (\<lambda>optionOffset.
                           if optionOffset > 0 \<and> ProcessStatusCode aMessage optionOffset \<noteq> OT_ERROR_NONE
                           then Some (ProcessStatusCode aMessage optionOffset, c)
                           else ProcessIaNa_loop c aMessage aOffset1 len))"

definition ProcessReply :: "Env \<Rightarrow> Client \<Rightarrow> message \<Rightarrow> Client option" where
  "ProcessReply env c aMessage =
     (let offset = mOffset aMessage;
          len = GetLength aMessage - mOffset aMessage
      in Option.bind (FindOption aMessage offset len kOptionStatusCode) (\<lambda>o1.
         if o1 > 0 \<and> ProcessStatusCode aMessage o1 \<noteq> OT_ERROR_NONE then Some c
         else Option.bind (FindOption aMessage offset len kOptionServerIdentifier) (\<lambda>o2.
         if \<not> o2 > 0 then Some c
         else if ProcessServerIdentifier aMessage o2 \<noteq> OT_ERROR_NONE then Some c
         else Option.bind (FindOption aMessage offset len kOptionClientIdentifier) (\<lambda>o3.
         if \<not> o3 > 0 then Some c
         else if ProcessClientIdentifier env aMessage o3 \<noteq> OT_ERROR_NONE then Some c
         else Option.bind (FindOption aMessage offset len kOptionRapidCommit) (\<lambda>o4.
         if \<not> o4 > 0 then Some c
         else Option.bind (FindOption aMessage offset len kOptionIaNa) (\<lambda>o5.
         if \<not> o5 > 0 then Some c
         else Option.bind (ProcessIaNa c aMessage o5) (\<lambda>(error, c1).
         if error \<noteq> OT_ERROR_NONE then Some c1
         else Some (snd (HandleTrickleTimer env c1)))))))))"

definition HandleUdpReceive :: "Env \<Rightarrow> Client \<Rightarrow> message \<Rightarrow> Client option" where
  "HandleUdpReceive env c aMessage =
     (let header = Read aMessage (mOffset aMessage) sizeof_Header
      in if length header \<noteq> sizeof_Header then Some c
         else if hd header = kTypeReply \<and> tl header = mTransactionId c
         then ProcessReply env c (MoveOffset aMessage sizeof_Header)
         else Some c)"

section \<open>Reachable states\<close>

text \<open>
  The client starts from its constructor and is driven by three events: a change of the
  network data, the trickle timer firing while it runs, and a datagram arriving on the
  bound socket. A datagram is at most 65535 bytes and its offset lies within it.
\<close>

definition message_ok :: "message \<Rightarrow> bool" where
  "message_ok m \<longleftrightarrow> length (mBytes m) < 65536 \<and> unat (mOffset m) \<le> length (mBytes m)"

inductive reachable :: "nat \<Rightarrow> Client \<Rightarrow> bool" for N :: nat where
  reachable_init: "reachable N (Client_init N)"
| reachable_update: "reachable N c \<Longrightarrow> reachable N (UpdateAddresses env c)"
| reachable_timer: "reachable N c \<Longrightarrow> mTrickleRunning c \<Longrightarrow> reachable N (TrickleTimerFired env c)"
| reachable_receive:
    "reachable N c \<Longrightarrow> mSocketBound c \<Longrightarrow> message_ok m \<Longrightarrow> HandleUdpReceive env c m = Some c' \<Longrightarrow>
     reachable N c'"

section \<open>Distinct prefixes\<close>

text \<open>
  Two on-mesh prefixes are the same prefix when they have the same length and agree on
  that many leading bits; this is the test \<^verbatim>\<open>MatchNetifAddressWithPrefix\<close> applies to a
  binding that was claimed for the first of them.
\<close>

definition same_prefix :: "otIp6Prefix \<Rightarrow> otIp6Prefix \<Rightarrow> bool" where
  "same_prefix p q \<longleftrightarrow>
     mLength q = mLength p \<and> unat (mLength q) \<le> PrefixMatch (mPrefix p) (mPrefix q)"

fun distinct_prefixes :: "otIp6Prefix list \<Rightarrow> bool" where
  "distinct_prefixes [] = True"
| "distinct_prefixes (p # ps) = ((\<forall>q \<in> set ps. \<not> same_prefix p q) \<and> distinct_prefixes ps)"

section \<open>A message as a list of options\<close>

text \<open>
  The spec's view of a message (section 6): after the 4-byte header, a sequence of
  options, each a 2-byte code, a 2-byte length and that many bytes of payload. The
  functions below describe what a scan of such a sequence finds, which DUIDs and status
  codes the parser accepts, and when a message is such a sequence.
\<close>

type_synonym dhcp_option = "16 word \<times> byte list"

definition encode_option :: "dhcp_option \<Rightarrow> byte list" where
  "encode_option opt =
     be_bytes 2 (fst opt) @ be_bytes 2 (of_nat (length (snd opt)) :: 16 word) @ snd opt"

definition encode_options :: "dhcp_option list \<Rightarrow> byte list" where
  "encode_options opts = concat (map encode_option opts)"

definition holds_options :: "message \<Rightarrow> dhcp_option list \<Rightarrow> bool" where
  "holds_options m opts \<longleftrightarrow>
     length (mBytes m) < 65536 \<and>
     unat (mOffset m) + sizeof_Header \<le> length (mBytes m) \<and>
     drop (unat (mOffset m) + sizeof_Header) (mBytes m) = encode_options opts"

text \<open>
  A message that begins, after the header, with the options \<open>opts\<close> and goes on with the
  bytes \<open>tail\<close>, which need not be options.
\<close>

definition starts_with_options :: "message \<Rightarrow> dhcp_option list \<Rightarrow> byte list \<Rightarrow> bool" where
  "starts_with_options m opts tail \<longleftrightarrow>
     length (mBytes m) < 65536 \<and>
     unat (mOffset m) + sizeof_Header \<le> length (mBytes m) \<and>
     drop (unat (mOffset m) + sizeof_Header) (mBytes m) = encode_options opts @ tail"

fun option_offset :: "dhcp_option list \<Rightarrow> nat \<Rightarrow> 16 word \<Rightarrow> nat option" where
  "option_offset [] pos code = None"
| "option_offset (opt # opts) pos code =
     (if fst opt = code then Some pos
      else option_offset opts (pos + sizeof_Option + length (snd opt)) code)"

fun scan_options :: "dhcp_option list \<Rightarrow> nat \<Rightarrow> nat \<Rightarrow> 16 word \<Rightarrow> nat" where
  "scan_options [] pos e code = 0"
| "scan_options (opt # opts) pos e code =
     (if e < pos then 0
      else if fst opt = code then pos
      else scan_options opts (pos + sizeof_Option + length (snd opt)) e code)"

definition options_at :: "message \<Rightarrow> dhcp_option list \<Rightarrow> bool" where
  "options_at m opts \<longleftrightarrow>
     length (mBytes m) < 65536 \<and>
     0 < unat (mOffset m) \<and>
     unat (mOffset m) \<le> length (mBytes m) \<and>
     drop (unat (mOffset m)) (mBytes m) = encode_options opts"

definition status_success :: "byte list \<Rightarrow> bool" where
  "status_success payload \<longleftrightarrow>
     2 \<le> length payload \<and> (be_word (take 2 payload) :: 16 word) = kStatusSuccess"

definition client_duid :: "byte list \<Rightarrow> byte list" where
  "client_duid eui64 = be_bytes 2 kDuidLinkLayerAddress @ be_bytes 2 kHardwareTypeEui64 @ eui64"

definition server_duid_ok :: "byte list \<Rightarrow> bool" where
  "server_duid_ok payload \<longleftrightarrow>
     (4 \<le> length payload \<and>
      take 4 payload = be_bytes 2 kDuidLinkLayerAddressPlusTime @ be_bytes 2 kHardwareTypeEthernet) \<or>
     (length payload = 12 \<and>
      take 4 payload = be_bytes 2 kDuidLinkLayerAddress @ be_bytes 2 kHardwareTypeEui64)"

definition option_header :: "16 word \<Rightarrow> byte list \<Rightarrow> byte list" where
  "option_header code payload = be_bytes 2 code @ be_bytes 2 (of_nat (length payload) :: 16 word)"

text \<open>A Reply built from a transaction id and a list of options; the offset is at the header.\<close>

definition reply_message :: "byte list \<Rightarrow> dhcp_option list \<Rightarrow> message" where
  "reply_message txid opts = \<lparr>mBytes = kTypeReply # txid @ encode_options opts, mOffset = 0\<rparr>"

section \<open>Fixtures\<close>

definition ex_config :: "128 word \<Rightarrow> 8 word \<Rightarrow> 16 word \<Rightarrow> OnMeshPrefixConfig" where
  "ex_config a l r = \<lparr>cfgPrefix = \<lparr>mPrefix = a, mLength = l\<rparr>, mDhcp = True, mRloc16 = r\<rparr>"

definition ex_env :: "OnMeshPrefixConfig list \<Rightarrow> Env" where
  "ex_env configs =
     \<lparr>envNow = 5000, envRandom = [1, 2, 3], envEui64 = [2, 0, 0, 0, 0, 0, 0, 1],
      envNetworkData = configs, envBuffers = 1280, envSendError = OT_ERROR_NONE\<rparr>"

section \<open>The bindings a Solicit asks for\<close>

text \<open>
  The bindings the spec counts for the IA container sent to the agent \<open>r\<close>: neither
  invalid nor replied, and owned by \<open>r\<close>.
\<close>

definition requested_for :: "16 word \<Rightarrow> IdentityAssociation \<Rightarrow> bool" where
  "requested_for r ia \<longleftrightarrow>
     mStatus ia \<noteq> kIaStatusInvalid \<and> mStatus ia \<noteq> kIaStatusSolicitReplied \<and> mPrefixAgentRloc ia = r"

section \<open>Invariants of the pool\<close>

text \<open>
  What one event may do to one binding, as far as the invariants care: it does not
  become soliciting, and if it ends up waiting or soliciting then its valid lifetime is
  zero or it was waiting or soliciting before with the same lifetime.
\<close>

definition ok_step :: "IdentityAssociation \<Rightarrow> IdentityAssociation \<Rightarrow> bool" where
  "ok_step ia ia' \<longleftrightarrow>
     (mStatus ia' = kIaStatusSoliciting \<longrightarrow> mStatus ia = kIaStatusSoliciting) \<and>
     (mStatus ia' = kIaStatusSolicit \<or> mStatus ia' = kIaStatusSoliciting \<longrightarrow>
        mValidLifetime ia' = 0 \<or>
        ((mStatus ia = kIaStatusSolicit \<or> mStatus ia = kIaStatusSoliciting) \<and>
         mValidLifetime ia' = mValidLifetime ia))"

definition pool_inv :: "nat \<Rightarrow> Client \<Rightarrow> bool" where
  "pool_inv N c \<longleftrightarrow>
     length (mIdentityAssociations c) = N \<and>
     (\<forall>i<N. mStatus (mIdentityAssociations c ! i) = kIaStatusSoliciting \<longrightarrow>
            mIdentityAssociationCurrent c = Some i) \<and>
     (\<forall>i. mIdentityAssociationCurrent c = Some i \<longrightarrow> i < N) \<and>
     (\<forall>ia \<in> set (mIdentityAssociations c).
        mStatus ia = kIaStatusSolicit \<or> mStatus ia = kIaStatusSoliciting \<longrightarrow> mValidLifetime ia = 0)"

text \<open>
  A Reply to the transaction \<open>[1, 2, 3]\<close> for the client \<open>02:00:00:00:00:00:00:01\<close>: a
  server identifier, the client identifier, RapidCommit, and an IA_NA holding one
  IA-Address with the address \<open>a\<close>, preferred lifetime 50 and valid lifetime \<open>v\<close>.
\<close>

definition ex_options :: "128 word \<Rightarrow> 32 word \<Rightarrow> dhcp_option list" where
  "ex_options a v =
     [(kOptionServerIdentifier,
         be_bytes 2 kDuidLinkLayerAddress @ be_bytes 2 kHardwareTypeEui64 @ [9, 9, 9, 9, 9, 9, 9, 9]),
      (kOptionClientIdentifier, client_duid [2, 0, 0, 0, 0, 0, 0, 1]),
      (kOptionRapidCommit, []),
      (kOptionIaNa, replicate 12 0 @ IaAddress_bytes a 50 v)]"

definition ex_reply :: "128 word \<Rightarrow> 32 word \<Rightarrow> message" where
  "ex_reply a v = reply_message [1, 2, 3] (ex_options a v)"

text \<open>
  A pool of one binding on its way: the prefix is configured and the timer has fired
  (\<open>ex_soliciting\<close>), the reply \<open>ex_reply 5 100\<close> has arrived (\<open>ex_replied\<close>), and the
  prefix has been withdrawn (\<open>ex_withdrawn\<close>).
\<close>

definition ex_soliciting :: Client where
  "ex_soliciting =
     TrickleTimerFired (ex_env [ex_config 1 64 7])
       (UpdateAddresses (ex_env [ex_config 1 64 7]) (Client_init 1))"

definition ex_replied :: Client where
  "ex_replied = the (HandleUdpReceive (ex_env [ex_config 1 64 7]) ex_soliciting (ex_reply 5 100))"

definition ex_withdrawn :: Client where
  "ex_withdrawn = UpdateAddresses (ex_env []) ex_replied"

definition ex_prefix_a :: OnMeshPrefixConfig where
  "ex_prefix_a = ex_config 0xFD000000000000010000000000000000 64 7"

definition ex_prefix_b :: OnMeshPrefixConfig where
  "ex_prefix_b = ex_config 0xFD000000000000020000000000000000 64 7"

definition ex_prefix_ab :: OnMeshPrefixConfig where
  "ex_prefix_ab = ex_config 0xFD000000000000000000000000000000 48 7"

definition ex_first_replied :: Client where
  "ex_first_replied =
     the (HandleUdpReceive (ex_env [ex_prefix_a])
            (TrickleTimerFired (ex_env [ex_prefix_a])
               (UpdateAddresses (ex_env [ex_prefix_a]) (Client_init 2)))
            (ex_reply 0xFD000000000000010000000000000005 100))"

text \<open>
  A pool of two bindings: the first holds an address granted for 100 seconds, the second
  is soliciting for another prefix (\<open>ex_second_soliciting\<close>); then the first prefix is
  replaced by a shorter one that contains the second (\<open>ex_overlap\<close>).
\<close>

definition ex_second_soliciting :: Client where
  "ex_second_soliciting =
     TrickleTimerFired (ex_env [ex_prefix_a, ex_prefix_b])
       (UpdateAddresses (ex_env [ex_prefix_a, ex_prefix_b]) ex_first_replied)"

definition ex_overlap :: Client where
  "ex_overlap = UpdateAddresses (ex_env [ex_prefix_b, ex_prefix_ab]) ex_second_soliciting"

text \<open>
  Two bindings requested from the same agent, the first of them soliciting
  (\<open>ex_two_requested\<close>), and a pool of 256 bindings that wait for the agent 0
  (\<open>ex_pool_256\<close>).
\<close>

definition ex_two_requested :: Client where
  "ex_two_requested =
     TrickleTimerFired (ex_env [ex_prefix_a, ex_prefix_b])
       (UpdateAddresses (ex_env [ex_prefix_a, ex_prefix_b]) (Client_init 2))"

definition ex_pool_256 :: Client where
  "ex_pool_256 =
     (Client_init 256)\<lparr>mIdentityAssociations :=
                          replicate 256 (IdentityAssociation_zero\<lparr>mStatus := kIaStatusSolicit\<rparr>),
                        mIdentityAssociationCurrent := Some 0\<rparr>"

text \<open>
  The options of a Reply whose IA_NA holds a StatusCode option with the status 1 before
  its IA-Address.
\<close>

definition ex_nested_status :: "dhcp_option list" where
  "ex_nested_status =
     [(kOptionServerIdentifier,
         be_bytes 2 kDuidLinkLayerAddress @ be_bytes 2 kHardwareTypeEui64 @ [9, 9, 9, 9, 9, 9, 9, 9]),
      (kOptionClientIdentifier, client_duid [2, 0, 0, 0, 0, 0, 0, 1]),
      (kOptionRapidCommit, []),
      (kOptionIaNa, replicate 12 0 @
         encode_options [(kOptionStatusCode, [0, 1]),
                         (kOptionIaAddress, be_bytes 16 (5 :: 128 word) @ be_bytes 4 (50 :: 32 word) @
                                            be_bytes 4 (100 :: 32 word))])]"

section \<open>Where a prefix finds its binding\<close>

text \<open>
  The inner loop of the second loop of \<^verbatim>\<open>UpdateAddresses\<close>, read as a search: a binding
  is a hit for a prefix when it is not invalid and matches it; \<open>hit_index\<close> is the index of
  the first hit and \<open>free_index\<close> the index of the first invalid binding, each the length
  of the pool when there is none.
\<close>

definition hit :: "otIp6Prefix \<Rightarrow> IdentityAssociation \<Rightarrow> bool" where
  "hit p ia \<longleftrightarrow>
     mStatus ia \<noteq> kIaStatusInvalid \<and> MatchNetifAddressWithPrefix (mNetifAddress ia) p"

definition hit_index :: "otIp6Prefix \<Rightarrow> IdentityAssociation list \<Rightarrow> nat" where
  "hit_index p ias = length (takeWhile (\<lambda>ia. \<not> hit p ia) ias)"

definition free_index :: "IdentityAssociation list \<Rightarrow> nat" where
  "free_index ias = length (takeWhile (\<lambda>ia. mStatus ia \<noteq> kIaStatusInvalid) ias)"

text \<open>
  A round of the loop that finds a binding only writes the agent locator: \<open>rloc_step\<close>
  at the index found. A prefix is settled in a pool when its round claims nothing: it
  has a hit (\<open>tgt\<close>), or no binding is free. A pool is reconciled with a list of prefixes
  when they are all settled and their rounds, run again in order, leave it as it is.
\<close>

definition rloc_step :: "nat option \<Rightarrow> 16 word \<Rightarrow> IdentityAssociation list \<Rightarrow> IdentityAssociation list" where
  "rloc_step t r ias =
     (case t of None \<Rightarrow> ias | Some j \<Rightarrow> ias[j := (ias ! j)\<lparr>mPrefixAgentRloc := r\<rparr>])"

definition replay ::
  "(OnMeshPrefixConfig \<Rightarrow> nat option) \<Rightarrow> OnMeshPrefixConfig list \<Rightarrow> IdentityAssociation list \<Rightarrow>
   IdentityAssociation list" where
  "replay t ds ias = fold (\<lambda>d. rloc_step (t d) (mRloc16 d)) ds ias"

definition tgt :: "OnMeshPrefixConfig \<Rightarrow> IdentityAssociation list \<Rightarrow> nat option" where
  "tgt d ias =
     (if hit_index (cfgPrefix d) ias < length ias then Some (hit_index (cfgPrefix d) ias) else None)"

definition settled :: "OnMeshPrefixConfig \<Rightarrow> IdentityAssociation list \<Rightarrow> bool" where
  "settled d ias \<longleftrightarrow> hit_index (cfgPrefix d) ias < length ias \<or> free_index ias = length ias"

definition reconciled :: "OnMeshPrefixConfig list \<Rightarrow> IdentityAssociation list \<Rightarrow> bool" where
  "reconciled pre y \<longleftrightarrow>
     (\<forall>d \<in> set pre. mDhcp d \<and> settled d y) \<and> replay (\<lambda>d. tgt d y) pre y = y"

section \<open>Sixteen-bit arithmetic\<close>

lemma no_wrap16:
  assumes "unat (a :: 16 word) + n \<le> k" "k < 65536"
  shows "unat (a + of_nat n) = unat a + n"
proof -
  have n: "n < 65536" using assms by linarith
  then have un: "unat (of_nat n :: 16 word) = n" by (simp add: unat_of_nat)
  have "unat a + unat (of_nat n :: 16 word) < 2 ^ LENGTH(16)"
    using assms un by simp
  then have "unat (a + of_nat n) = unat a + unat (of_nat n :: 16 word)"
    by (simp only: unat_add_lem)
  with un show ?thesis by simp
qed

lemma past_IaNa:
  assumes rdl: "unat (aOffset :: 16 word) + 16 \<le> k" and len: "k < 65536"
  shows "16 \<le> uint (aOffset + 16)"
proof -
  have "unat (aOffset + of_nat 16) = unat aOffset + 16"
    using rdl len by (rule no_wrap16)
  then have "16 \<le> unat (aOffset + 16)" by simp
  then show ?thesis by (simp only: uint_nat)
qed

lemma window_wraps:
  assumes "(L :: 16 word) < 12"
  shows "uint (IaNa_window L) = 65524 + uint L"
proof -
  have l: "uint L < 12" "0 \<le> uint L" using assms by (simp_all add: word_less_def)
  have "uint (L - 12) = (uint L - uint (12 :: 16 word)) mod 2 ^ 16"
    by (simp add: uint_word_ariths)
  also have "\<dots> = (uint L - 12) mod 65536" by simp
  also have "\<dots> = (uint L - 12 + 65536) mod 65536" by (simp only: mod_add_self2)
  also have "\<dots> = uint L - 12 + 65536" using l by (intro mod_pos_pos_trivial) simp_all
  also have "\<dots> = 65524 + uint L" by simp
  finally show ?thesis by (simp add: IaNa_window_def wire_defs)
qed

section \<open>FindOption on the window's edge and on a wrapping length\<close>

text \<open>
  C6. \<^verbatim>\<open>FindOption\<close> is to return the first matching option inside the window
  \<open>[offset, offset + length)\<close> or the sentinel 0, and never an option that starts at or
  beyond \<open>offset + length\<close>. The loop runs while \<open>aOffset \<le> end\<close>, so it also reads the
  option that starts exactly at the window's end. Here the window is the 4 bytes of the
  option at offset 4; the scan for RapidCommit returns 8, the offset of the option that
  follows the window.
\<close>

theorem FindOption_returns_option_at_window_end:
  "FindOption \<lparr>mBytes = [7,0,0,0, 0,1,0,0, 0,14,0,0], mOffset = 4\<rparr> 4 4 kOptionRapidCommit = Some 8"
  by (simp add: FindOption_def FindOption_loop.simps Read_def GetCode_def GetOptLength_def
      be_word_def wire_defs)

text \<open>
  The offset is advanced in 16 bits. An option that declares the length \<open>0xFFFC\<close> moves
  the offset by \<open>2^16\<close>, that is, not at all, and the scan never returns.
\<close>

lemma FindOption_never_returns:
  "FindOption \<lparr>mBytes = [7,0,0,0, 0,1,0xFF,0xFC], mOffset = 4\<rparr> 4 4 kOptionRapidCommit = None"
proof -
  let ?m = "\<lparr>mBytes = [7,0,0,0, 0,1,0xFF,0xFC], mOffset = 4\<rparr>"
  let ?P = "\<lambda>m a e cd (y :: 16 word). \<not> (m = ?m \<and> a = 4 \<and> e = 8 \<and> cd = (14 :: 16 word))"
  have w: "(65540 :: 16 word) = 4" by simp
  have r: "?P m a e cd y" if "FindOption_loop m a e cd = Some y" for m a e cd y
  proof (rule FindOption_loop.raw_induct [where P = ?P, OF _ that])
    fix f m a e cd and y :: "16 word"
    assume ih: "\<And>m a e cd y. f m a e cd = Some y \<Longrightarrow> ?P m a e cd y"
      and st: "(if a \<le> e
      then (let opt = Read m a sizeof_Option
            in if length opt \<noteq> sizeof_Option then Some 0
               else if GetCode opt = cd then Some a
               else f m (a + of_nat sizeof_Option + GetOptLength opt) e cd)
      else Some 0) = Some y"
    show "?P m a e cd y"
    proof
      assume h: "m = ?m \<and> a = 4 \<and> e = 8 \<and> cd = 14"
      with st have "f m a e cd = Some y"
        by (simp add: Read_def GetCode_def GetOptLength_def be_word_def wire_defs w)
      with ih h show False by blast
    qed
  qed
  have "\<forall>y. FindOption_loop ?m 4 8 14 \<noteq> Some y"
  proof (intro allI notI)
    fix y assume "FindOption_loop ?m 4 8 14 = Some y"
    from r [OF this] show False by simp
  qed
  then have "FindOption_loop ?m 4 8 14 = None" by simp
  then show ?thesis by (simp add: FindOption_def wire_defs)
qed

section \<open>An IA container shorter than its fixed fields\<close>

text \<open>
  C10. When the length an IA_NA option declares is smaller than its fixed fields (12
  bytes), \<^verbatim>\<open>ProcessIaNa\<close> computes the window of the nested options by a 16-bit
  subtraction that wraps: the window is the declared length plus \<open>2^16 - 12\<close>. The option
  is then rejected by the comparison with the bytes that remain, which the window
  exceeds in every message (a message has fewer than \<open>2^16\<close> bytes, 16 of them before the
  window); the client is unchanged.
\<close>

theorem ProcessIaNa_short_length_wraps:
  assumes len: "length (mBytes m) < 65536"
    and rd: "length (Read m aOffset sizeof_IaNa) = sizeof_IaNa"
    and short: "GetOptLength (Read m aOffset sizeof_IaNa) < of_nat (sizeof_IaNa - sizeof_Option)"
  shows "uint (IaNa_window (GetOptLength (Read m aOffset sizeof_IaNa))) =
           65536 - int (sizeof_IaNa - sizeof_Option) + uint (GetOptLength (Read m aOffset sizeof_IaNa))
       \<and> uint (GetLength m) - uint (aOffset + of_nat sizeof_IaNa)
           < uint (IaNa_window (GetOptLength (Read m aOffset sizeof_IaNa)))
       \<and> ProcessIaNa c m aOffset = Some (OT_ERROR_PARSE, c)"
proof -
  let ?L = "GetOptLength (Read m aOffset sizeof_IaNa)"
  have L: "?L < 12" using short by (simp add: wire_defs)
  have w: "uint (IaNa_window ?L) = 65524 + uint ?L"
    using L by (rule window_wraps)
  have g: "uint (GetLength m) < 65536"
    using uint_lt2p [of "GetLength m"] by simp
  have o: "0 \<le> uint ?L" by simp
  have rdl: "unat aOffset + 16 \<le> length (mBytes m)"
    using rd by (simp add: Read_def wire_defs)
  have off: "16 \<le> uint (aOffset + 16)"
    using rdl len by (rule past_IaNa)
  have s: "(of_nat sizeof_IaNa :: 16 word) = 16" by (simp add: wire_defs)
  have cmp: "uint (GetLength m) - uint (aOffset + of_nat sizeof_IaNa) < uint (IaNa_window ?L)"
    unfolding s using w g o off by linarith
  have p: "ProcessIaNa c m aOffset = Some (OT_ERROR_PARSE, c)"
    using cmp rd by (simp add: ProcessIaNa_def Let_def)
  have k: "65536 - int (sizeof_IaNa - sizeof_Option) = 65524" by (simp add: wire_defs)
  show ?thesis unfolding k using w cmp p by simp
qed

theorem ProcessIaNa_short_length_wraps_witness:
  "uint (IaNa_window (GetOptLength (Read \<lparr>mBytes = [0,3,0,4, 0,0,0,0, 0,0,0,0, 0,0,0,0], mOffset = 0\<rparr> 0 sizeof_IaNa)))
     = 65528
   \<and> ProcessIaNa (Client_init 1) \<lparr>mBytes = [0,3,0,4, 0,0,0,0, 0,0,0,0, 0,0,0,0], mOffset = 0\<rparr> 0
       = Some (OT_ERROR_PARSE, Client_init 1)"
  using ProcessIaNa_short_length_wraps
          [of "\<lparr>mBytes = [0,3,0,4, 0,0,0,0, 0,0,0,0, 0,0,0,0], mOffset = 0\<rparr>" 0 "Client_init 1"]
  by (simp add: Read_def GetOptLength_def be_word_def wire_defs)

section \<open>Properties of prefix matching\<close>

lemma le_length_takeWhile:
  "n \<le> length (takeWhile P xs) \<longleftrightarrow> n \<le> length xs \<and> (\<forall>i<n. P (xs ! i))"
proof (induction xs arbitrary: n)
  case Nil
  then show ?case by auto
next
  case (Cons x xs)
  show ?case
  proof (cases n)
    case 0
    then show ?thesis by simp
  next
    case (Suc k)
    then show ?thesis using Cons.IH [of k]
      by (auto simp: less_Suc_eq_0_disj)
  qed
qed

lemma PrefixMatch_ge:
  "l \<le> PrefixMatch a b \<longleftrightarrow> l \<le> 128 \<and> (\<forall>i<l. bit a (127 - i) = bit b (127 - i))"
proof -
  have "(\<forall>i<l. bit a (rev [0..<128] ! i) = bit b (rev [0..<128] ! i))
        \<longleftrightarrow> (\<forall>i<l. bit a (127 - i) = bit b (127 - i))" if "l \<le> 128"
    using that by (auto simp: rev_nth)
  then show ?thesis
    unfolding PrefixMatch_def le_length_takeWhile by auto
qed

lemma PrefixMatch_le: "PrefixMatch a b \<le> 128"
  using length_takeWhile_le [of "\<lambda>i. bit a i = bit b i" "rev [0..<128]"]
  by (simp add: PrefixMatch_def)

lemma PrefixMatch_refl: "PrefixMatch a a = 128"
proof -
  have "128 \<le> PrefixMatch a a" by (simp add: PrefixMatch_ge)
  with PrefixMatch_le [of a a] show ?thesis by simp
qed

lemma PrefixMatch_sym: "PrefixMatch a b = PrefixMatch b a"
  by (simp add: PrefixMatch_def eq_commute)

lemma PrefixMatch_trans:
  "l \<le> PrefixMatch a b \<Longrightarrow> l \<le> PrefixMatch b c \<Longrightarrow> l \<le> PrefixMatch a c"
  by (simp add: PrefixMatch_ge)

section \<open>Reconciling a pool of invalid bindings\<close>

lemma zero_status [simp]: "mStatus IdentityAssociation_zero = kIaStatusInvalid"
  by (simp add: IdentityAssociation_zero_def)

lemma claim_status [simp]: "mStatus (claim c ia) = kIaStatusSolicit"
  by (simp add: claim_def)

lemma find_association_invalid:
  assumes "\<forall>y \<in> set ys. mStatus y = kIaStatusInvalid"
  shows "find_association p ys k idA =
     (False, if idA = None then (if ys = [] then None else Some k) else idA)"
  using assms by (induction ys arbitrary: k idA) auto

lemma find_association_no_match:
  assumes "\<forall>x \<in> set xs. mStatus x \<noteq> kIaStatusInvalid \<and> \<not> MatchNetifAddressWithPrefix (mNetifAddress x) p"
  shows "find_association p (xs @ ys) k idA = find_association p ys (k + length xs) idA"
  using assms by (induction xs arbitrary: k) auto

lemma add_prefix_not_dhcp: "\<not> mDhcp c \<Longrightarrow> add_prefix c ias = ias"
  by (simp add: add_prefix_def)

lemma add_prefix_claims_invalid:
  assumes "mDhcp c"
    and "\<forall>x \<in> set xs. mStatus x \<noteq> kIaStatusInvalid \<and> \<not> MatchNetifAddressWithPrefix (mNetifAddress x) (cfgPrefix c)"
    and "\<forall>y \<in> set ys. mStatus y = kIaStatusInvalid"
  shows "add_prefix c (xs @ ys) = (case ys of [] \<Rightarrow> xs | y # ys' \<Rightarrow> (xs @ [claim c y]) @ ys')"
proof (cases ys)
  case Nil
  then show ?thesis using assms
    by (simp add: add_prefix_def find_association_no_match [where ys = "[]", simplified])
next
  case (Cons y ys')
  have "find_association (cfgPrefix c) (xs @ ys) 0 None = (False, Some (length xs))"
    using assms(2,3) Cons by (simp add: find_association_no_match find_association_invalid)
  then show ?thesis using assms(1) Cons
    by (simp add: add_prefix_def nth_append)
qed

lemma claim_matches:
  "MatchNetifAddressWithPrefix (mNetifAddress (claim c ia)) q \<longleftrightarrow> same_prefix (cfgPrefix c) q"
  by (simp add: MatchNetifAddressWithPrefix_def claim_def same_prefix_def)

lemma add_prefixes_claims:
  assumes "\<forall>c \<in> set ds. mDhcp c"
    and "distinct_prefixes (map cfgPrefix ds)"
    and "\<forall>x \<in> set xs. mStatus x \<noteq> kIaStatusInvalid \<and>
           (\<forall>c \<in> set ds. \<not> MatchNetifAddressWithPrefix (mNetifAddress x) (cfgPrefix c))"
    and "\<forall>y \<in> set ys. mStatus y = kIaStatusInvalid"
  shows "add_prefixes ds (xs @ ys) =
           xs @ map (\<lambda>(c, y). claim c y) (zip ds ys) @ drop (length ds) ys"
  using assms
proof (induction ds arbitrary: xs ys)
  case Nil
  then show ?case by (simp add: add_prefixes_def)
next
  case (Cons d ds)
  have step: "add_prefix d (xs @ ys) = (case ys of [] \<Rightarrow> xs | y # ys' \<Rightarrow> (xs @ [claim d y]) @ ys')"
    using Cons.prems by (intro add_prefix_claims_invalid) auto
  show ?case
  proof (cases ys)
    case Nil
    have "add_prefixes ds (xs @ []) = xs @ map (\<lambda>(c, y). claim c y) (zip ds []) @ drop (length ds) []"
      using Cons.prems by (intro Cons.IH) auto
    with Nil step show ?thesis by (simp add: add_prefixes_def)
  next
    case (Cons y ys')
    have "add_prefixes ds ((xs @ [claim d y]) @ ys') =
           (xs @ [claim d y]) @ map (\<lambda>(c, y). claim c y) (zip ds ys') @ drop (length ds) ys'"
      using Cons.prems Cons by (intro Cons.IH) (auto simp: claim_matches)
    with Cons step show ?thesis by (simp add: add_prefixes_def)
  qed
qed

lemma add_prefixes_filter: "add_prefixes cs ias = add_prefixes (filter mDhcp cs) ias"
  unfolding add_prefixes_def
  by (induction cs arbitrary: ias) (simp_all add: add_prefix_not_dhcp)


lemma distinct_prefixes_nth:
  "distinct_prefixes ps \<Longrightarrow> i < j \<Longrightarrow> j < length ps \<Longrightarrow> \<not> same_prefix (ps ! i) (ps ! j)"
proof (induction ps arbitrary: i j)
  case Nil
  then show ?case by simp
next
  case (Cons p ps)
  then obtain j' where j: "j = Suc j'" by (cases j) auto
  show ?case
  proof (cases i)
    case 0
    with Cons.prems j show ?thesis by auto
  next
    case (Suc i')
    with Cons.prems j Cons.IH [of i' j'] show ?thesis by auto
  qed
qed

lemma remove_addresses_invalid:
  "\<forall>y \<in> set ys. mStatus y = kIaStatusInvalid \<Longrightarrow> remove_addresses configs ys = ys"
  by (simp add: remove_addresses_def to_remove_def map_idI)

lemma remove_calls_invalid:
  "\<forall>y \<in> set ys. mStatus y = kIaStatusInvalid \<Longrightarrow> remove_calls configs ys = []"
  by (simp add: remove_calls_def to_remove_def filter_empty_conv)

lemma ProcessNext_pool [simp]:
  "mIdentityAssociations (snd (ProcessNextIdentityAssociation env c)) = mIdentityAssociations c"
  "mNetifCalls (snd (ProcessNextIdentityAssociation env c)) = mNetifCalls c"
  "mSocketBound (snd (ProcessNextIdentityAssociation env c)) = mSocketBound c"
  "mSent (snd (ProcessNextIdentityAssociation env c)) = mSent c"
  by (simp_all add: ProcessNextIdentityAssociation_def Let_def split: option.splits)

lemma Start_pool [simp]:
  "mIdentityAssociations (Start env c) = mIdentityAssociations c"
  "mNetifCalls (Start env c) = mNetifCalls c"
  "mSocketBound (Start env c)"
  "mSent (Start env c) = mSent c"
  by (simp_all add: Start_def)

lemma Stop_pool [simp]:
  "mIdentityAssociations (Stop c) = mIdentityAssociations c"
  "mNetifCalls (Stop c) = mNetifCalls c"
  "\<not> mSocketBound (Stop c)"
  "mSent (Stop c) = mSent c"
  "mIdentityAssociationCurrent (Stop c) = mIdentityAssociationCurrent c"
  "mTransactionId (Stop c) = mTransactionId c"
  "mTrickleRunning (Stop c) = mTrickleRunning c"
  "mStartTime (Stop c) = mStartTime c"
  by (simp_all add: Stop_def)

lemma UpdateAddresses_pool:
  "mIdentityAssociations (UpdateAddresses env c) =
     add_prefixes (envNetworkData env) (remove_addresses (envNetworkData env) (mIdentityAssociations c))"
  "mNetifCalls (UpdateAddresses env c) =
     mNetifCalls c @ remove_calls (envNetworkData env) (mIdentityAssociations c)"
  "mSocketBound (UpdateAddresses env c) = list_ex mDhcp (envNetworkData env)"
  by (simp_all add: UpdateAddresses_def Let_def)

text \<open>
  C9. A pool of \<open>N\<close> bindings that are all invalid, whatever their other fields hold, is
  reconciled with network data whose DHCP prefixes are \<open>N + 1\<close> distinct prefixes. Each
  binding is then claimed for the prefix of the same rank: it waits to solicit, its valid
  lifetime is reset to zero, and it has the prefix as address and the prefix's agent
  locator. No binding matches the last prefix, and its round of the loop leaves the pool
  as it is. No call is made on the interface table and the socket is bound.
\<close>

theorem UpdateAddresses_exhaustion:
  assumes inv: "\<forall>ia \<in> set (mIdentityAssociations c). mStatus ia = kIaStatusInvalid"
    and n: "length (filter mDhcp (envNetworkData env)) = Suc (length (mIdentityAssociations c))"
    and d: "distinct_prefixes (map cfgPrefix (filter mDhcp (envNetworkData env)))"
  shows "mIdentityAssociations (UpdateAddresses env c) =
           map (\<lambda>(config, ia). claim config ia)
               (zip (filter mDhcp (envNetworkData env)) (mIdentityAssociations c))
       \<and> length (mIdentityAssociations (UpdateAddresses env c)) = length (mIdentityAssociations c)
       \<and> (\<forall>i<length (mIdentityAssociations c).
               mStatus (mIdentityAssociations (UpdateAddresses env c) ! i) = kIaStatusSolicit
               \<and> mValidLifetime (mIdentityAssociations (UpdateAddresses env c) ! i) = 0
               \<and> mPrefixAgentRloc (mIdentityAssociations (UpdateAddresses env c) ! i)
                   = mRloc16 (filter mDhcp (envNetworkData env) ! i)
               \<and> mAddress (mNetifAddress (mIdentityAssociations (UpdateAddresses env c) ! i))
                   = mPrefix (cfgPrefix (filter mDhcp (envNetworkData env) ! i))
               \<and> mPrefixLength (mNetifAddress (mIdentityAssociations (UpdateAddresses env c) ! i))
                   = mLength (cfgPrefix (filter mDhcp (envNetworkData env) ! i)))
       \<and> (\<forall>ia \<in> set (mIdentityAssociations (UpdateAddresses env c)).
             \<not> MatchNetifAddressWithPrefix (mNetifAddress ia)
                 (cfgPrefix (filter mDhcp (envNetworkData env) ! length (mIdentityAssociations c))))
       \<and> add_prefix (filter mDhcp (envNetworkData env) ! length (mIdentityAssociations c))
             (mIdentityAssociations (UpdateAddresses env c))
           = mIdentityAssociations (UpdateAddresses env c)
       \<and> mNetifCalls (UpdateAddresses env c) = mNetifCalls c
       \<and> mSocketBound (UpdateAddresses env c)"
proof -
  let ?ds = "filter mDhcp (envNetworkData env)"
  let ?old = "mIdentityAssociations c"
  let ?N = "length ?old"
  let ?ias = "mIdentityAssociations (UpdateAddresses env c)"
  have "add_prefixes ?ds ([] @ ?old) =
          [] @ map (\<lambda>(c, y). claim c y) (zip ?ds ?old) @ drop (length ?ds) ?old"
    using d inv by (intro add_prefixes_claims) auto
  then have pool: "?ias = map (\<lambda>(c, y). claim c y) (zip ?ds ?old)"
    using n inv
    by (simp add: UpdateAddresses_pool remove_addresses_invalid add_prefixes_filter [of "envNetworkData env"])
  have len: "length ?ias = ?N" using n by (simp add: pool)
  have nth: "?ias ! i = claim (?ds ! i) (?old ! i)" if "i < ?N" for i
    using that n by (simp add: pool)
  have each: "mStatus (?ias ! i) = kIaStatusSolicit \<and> mValidLifetime (?ias ! i) = 0
               \<and> mPrefixAgentRloc (?ias ! i) = mRloc16 (?ds ! i)
               \<and> mAddress (mNetifAddress (?ias ! i)) = mPrefix (cfgPrefix (?ds ! i))
               \<and> mPrefixLength (mNetifAddress (?ias ! i)) = mLength (cfgPrefix (?ds ! i))" if "i < ?N" for i
    using that by (simp add: nth claim_def)
  have unserved: "\<not> MatchNetifAddressWithPrefix (mNetifAddress ia) (cfgPrefix (?ds ! ?N))"
    if "ia \<in> set ?ias" for ia
  proof -
    from that len obtain i where i: "i < ?N" "ia = ?ias ! i"
      by (metis in_set_conv_nth)
    have "\<not> same_prefix (map cfgPrefix ?ds ! i) (map cfgPrefix ?ds ! ?N)"
      using d i(1) n by (intro distinct_prefixes_nth) simp_all
    then show ?thesis using i n by (simp add: nth claim_matches)
  qed
  have last: "mDhcp (?ds ! ?N)"
    using n nth_mem [of ?N ?ds] by auto
  have st: "mStatus x \<noteq> kIaStatusInvalid" if "x \<in> set ?ias" for x
  proof -
    from that len obtain i where i: "i < ?N" "x = ?ias ! i"
      by (metis in_set_conv_nth)
    then show ?thesis using each [of i] by simp
  qed
  have "add_prefix (?ds ! ?N) (?ias @ []) = (case [] of [] \<Rightarrow> ?ias | y # ys' \<Rightarrow> (?ias @ [claim (?ds ! ?N) y]) @ ys')"
    using last unserved st by (intro add_prefix_claims_invalid) auto
  then have same: "add_prefix (?ds ! ?N) ?ias = ?ias" by simp
  have calls: "mNetifCalls (UpdateAddresses env c) = mNetifCalls c"
    using inv by (simp add: UpdateAddresses_pool remove_calls_invalid)
  have "filter mDhcp (envNetworkData env) \<noteq> []" using n by auto
  then have bound: "mSocketBound (UpdateAddresses env c)"
    by (simp add: UpdateAddresses_pool list_ex_iff filter_empty_conv)
  from pool len each unserved same calls bound show ?thesis by blast
qed

lemma ex_withdrawn_pool:
  "mIdentityAssociations ex_withdrawn =
     [\<lparr>mNetifAddress = \<lparr>mAddress = 5, mPrefixLength = 64, mAddressOrigin = OT_ADDRESS_ORIGIN_DHCPV6,
                        mPreferred = True, mValid = True\<rparr>,
       mPreferredLifetime = 50, mValidLifetime = 100, mPrefixAgentRloc = 7,
       mStatus = kIaStatusInvalid\<rparr>]"
  by code_simp

theorem UpdateAddresses_exhaustion_witness:
  "mStatus (mIdentityAssociations ex_withdrawn ! 0) = kIaStatusInvalid
   \<and> mValidLifetime (mIdentityAssociations ex_withdrawn ! 0) = 100
   \<and> mIdentityAssociations (UpdateAddresses (ex_env [ex_config 1 64 7, ex_config 1 48 9]) ex_withdrawn)
     = [\<lparr>mNetifAddress = \<lparr>mAddress = 1, mPrefixLength = 64, mAddressOrigin = OT_ADDRESS_ORIGIN_DHCPV6,
                        mPreferred = True, mValid = True\<rparr>,
       mPreferredLifetime = 50, mValidLifetime = 0, mPrefixAgentRloc = 7,
       mStatus = kIaStatusSolicit\<rparr>]
   \<and> mNetifCalls (UpdateAddresses (ex_env [ex_config 1 64 7, ex_config 1 48 9]) ex_withdrawn)
     = mNetifCalls ex_withdrawn
   \<and> mSocketBound (UpdateAddresses (ex_env [ex_config 1 64 7, ex_config 1 48 9]) ex_withdrawn)"
  using UpdateAddresses_exhaustion [of ex_withdrawn "ex_env [ex_config 1 64 7, ex_config 1 48 9]"]
  by (simp add: ex_withdrawn_pool ex_env_def ex_config_def same_prefix_def claim_def)

section \<open>Withdrawing every prefix\<close>

lemma prefix_found_no_dhcp: "\<not> list_ex mDhcp configs \<Longrightarrow> \<not> prefix_found a configs"
  by (induction configs) auto

lemma add_prefixes_no_dhcp: "\<not> list_ex mDhcp configs \<Longrightarrow> add_prefixes configs ias = ias"
proof -
  assume "\<not> list_ex mDhcp configs"
  then have "filter mDhcp configs = []" by (simp add: list_ex_iff filter_empty_conv)
  then have "add_prefixes (filter mDhcp configs) ias = ias" by (simp add: add_prefixes_def)
  then show ?thesis by (simp only: add_prefixes_filter [of configs])
qed

text \<open>
  C3. The claim is that reconciling after the sole DHCP prefix has gone invalidates the
  one binding, removes its address, closes the socket and stops the timer, whatever the
  binding's status. The first loop of \<^verbatim>\<open>UpdateAddresses\<close> skips every binding whose valid
  lifetime is zero, so a binding that is still soliciting stays as it is: here one
  prefix is configured, the timer fires once, and the prefix is withdrawn.
\<close>

theorem soliciting_binding_survives_withdrawal:
  "mStatus (mIdentityAssociations
      (TrickleTimerFired (ex_env [ex_config 1 64 7])
        (UpdateAddresses (ex_env [ex_config 1 64 7]) (Client_init 1))) ! 0) = kIaStatusSoliciting
   \<and> mValidLifetime (mIdentityAssociations
      (TrickleTimerFired (ex_env [ex_config 1 64 7])
        (UpdateAddresses (ex_env [ex_config 1 64 7]) (Client_init 1))) ! 0) = 0
   \<and> mStatus (mIdentityAssociations
      (UpdateAddresses (ex_env [])
        (TrickleTimerFired (ex_env [ex_config 1 64 7])
          (UpdateAddresses (ex_env [ex_config 1 64 7]) (Client_init 1)))) ! 0) = kIaStatusSoliciting
   \<and> mNetifCalls
      (UpdateAddresses (ex_env [])
        (TrickleTimerFired (ex_env [ex_config 1 64 7])
          (UpdateAddresses (ex_env [ex_config 1 64 7]) (Client_init 1)))) = []"
  by code_simp

text \<open>
  C3, amended. When the network data holds no DHCP prefix, \<^verbatim>\<open>UpdateAddresses\<close> sets to
  invalid every binding that is not invalid and whose valid lifetime is not zero, and
  calls \<^verbatim>\<open>RemoveUnicastAddress\<close> for each of them, in pool order. Every other binding is
  left as it is: one that waits to solicit or is soliciting, its valid lifetime being
  zero, keeps its status and no call is made for it. The socket is closed. Nothing else
  changes: \<^verbatim>\<open>Stop\<close> closes the socket only, so the trickle timer is left as it was, and
  so are the current binding and the transaction id.
\<close>

theorem UpdateAddresses_withdrawal:
  assumes nd: "\<not> list_ex mDhcp (envNetworkData env)"
  shows "mIdentityAssociations (UpdateAddresses env c) =
           map (\<lambda>ia. if mStatus ia \<noteq> kIaStatusInvalid \<and> mValidLifetime ia \<noteq> 0
                      then ia\<lparr>mStatus := kIaStatusInvalid\<rparr> else ia)
               (mIdentityAssociations c)
       \<and> mNetifCalls (UpdateAddresses env c) =
           mNetifCalls c @
           map (\<lambda>ia. RemoveUnicastAddress (mNetifAddress ia))
               (filter (\<lambda>ia. mStatus ia \<noteq> kIaStatusInvalid \<and> mValidLifetime ia \<noteq> 0)
                       (mIdentityAssociations c))
       \<and> \<not> mSocketBound (UpdateAddresses env c)
       \<and> mTrickleRunning (UpdateAddresses env c) = mTrickleRunning c
       \<and> mIdentityAssociationCurrent (UpdateAddresses env c) = mIdentityAssociationCurrent c
       \<and> mTransactionId (UpdateAddresses env c) = mTransactionId c
       \<and> mSent (UpdateAddresses env c) = mSent c"
proof -
  let ?ias = "mIdentityAssociations c"
  let ?cs = "envNetworkData env"
  have tr: "to_remove ?cs = (\<lambda>ia. mStatus ia \<noteq> kIaStatusInvalid \<and> mValidLifetime ia \<noteq> 0)"
    using nd by (auto simp: to_remove_def prefix_found_no_dhcp fun_eq_iff)
  have pool: "mIdentityAssociations (UpdateAddresses env c) =
           map (\<lambda>ia. if mStatus ia \<noteq> kIaStatusInvalid \<and> mValidLifetime ia \<noteq> 0
                      then ia\<lparr>mStatus := kIaStatusInvalid\<rparr> else ia) ?ias"
    using nd by (simp add: UpdateAddresses_pool add_prefixes_no_dhcp remove_addresses_def tr)
  have calls: "mNetifCalls (UpdateAddresses env c) =
           mNetifCalls c @
           map (\<lambda>ia. RemoveUnicastAddress (mNetifAddress ia))
               (filter (\<lambda>ia. mStatus ia \<noteq> kIaStatusInvalid \<and> mValidLifetime ia \<noteq> 0) ?ias)"
    by (simp add: UpdateAddresses_pool remove_calls_def tr)
  have rest: "\<not> mSocketBound (UpdateAddresses env c)"
    "mTrickleRunning (UpdateAddresses env c) = mTrickleRunning c"
    "mIdentityAssociationCurrent (UpdateAddresses env c) = mIdentityAssociationCurrent c"
    "mTransactionId (UpdateAddresses env c) = mTransactionId c"
    "mSent (UpdateAddresses env c) = mSent c"
    using nd by (simp_all add: UpdateAddresses_def Let_def)
  from pool calls rest show ?thesis by simp
qed

lemma ex_second_soliciting_state:
  "mIdentityAssociations ex_second_soliciting =
     [\<lparr>mNetifAddress = \<lparr>mAddress = 0xFD000000000000010000000000000005, mPrefixLength = 64,
                        mAddressOrigin = OT_ADDRESS_ORIGIN_DHCPV6, mPreferred = True, mValid = True\<rparr>,
       mPreferredLifetime = 50, mValidLifetime = 100, mPrefixAgentRloc = 7,
       mStatus = kIaStatusSolicitReplied\<rparr>,
      \<lparr>mNetifAddress = \<lparr>mAddress = 0xFD000000000000020000000000000000, mPrefixLength = 64,
                        mAddressOrigin = OT_ADDRESS_ORIGIN_THREAD, mPreferred = False, mValid = False\<rparr>,
       mPreferredLifetime = 0, mValidLifetime = 0, mPrefixAgentRloc = 7,
       mStatus = kIaStatusSoliciting\<rparr>]"
  "mSocketBound ex_second_soliciting"
  "mTrickleRunning ex_second_soliciting"
  "mIdentityAssociationCurrent ex_second_soliciting = Some 1"
  "mTransactionId ex_second_soliciting = [1, 2, 3]"
  by code_simp+

lemma reachable_ex_second_soliciting: "reachable 2 ex_second_soliciting"
proof -
  let ?s1 = "UpdateAddresses (ex_env [ex_prefix_a]) (Client_init 2)"
  let ?s2 = "TrickleTimerFired (ex_env [ex_prefix_a]) ?s1"
  let ?s4 = "UpdateAddresses (ex_env [ex_prefix_a, ex_prefix_b]) ex_first_replied"
  have 1: "reachable 2 ?s1" by (rule reachable_update) (rule reachable_init)
  have "mTrickleRunning ?s1" by code_simp
  with 1 have 2: "reachable 2 ?s2" by (rule reachable_timer)
  have "mSocketBound ?s2" "message_ok (ex_reply 0xFD000000000000010000000000000005 100)"
    "HandleUdpReceive (ex_env [ex_prefix_a]) ?s2 (ex_reply 0xFD000000000000010000000000000005 100)
       = Some ex_first_replied"
    by code_simp+
  with 2 have 3: "reachable 2 ex_first_replied" by (rule reachable_receive)
  then have 4: "reachable 2 ?s4" by (rule reachable_update)
  have "mTrickleRunning ?s4" by code_simp
  with 4 show ?thesis unfolding ex_second_soliciting_def by (rule reachable_timer)
qed

theorem UpdateAddresses_withdrawal_witness:
  "reachable 2 ex_second_soliciting
   \<and> mSocketBound ex_second_soliciting
   \<and> mTrickleRunning ex_second_soliciting
   \<and> mStatus (mIdentityAssociations ex_second_soliciting ! 0) = kIaStatusSolicitReplied
   \<and> mValidLifetime (mIdentityAssociations ex_second_soliciting ! 0) = 100
   \<and> mStatus (mIdentityAssociations ex_second_soliciting ! 1) = kIaStatusSoliciting
   \<and> mValidLifetime (mIdentityAssociations ex_second_soliciting ! 1) = 0
   \<and> mIdentityAssociations (UpdateAddresses (ex_env []) ex_second_soliciting) =
       [(mIdentityAssociations ex_second_soliciting ! 0)\<lparr>mStatus := kIaStatusInvalid\<rparr>,
        mIdentityAssociations ex_second_soliciting ! 1]
   \<and> mNetifCalls (UpdateAddresses (ex_env []) ex_second_soliciting) =
       mNetifCalls ex_second_soliciting @
       [RemoveUnicastAddress (mNetifAddress (mIdentityAssociations ex_second_soliciting ! 0))]
   \<and> \<not> mSocketBound (UpdateAddresses (ex_env []) ex_second_soliciting)
   \<and> mTrickleRunning (UpdateAddresses (ex_env []) ex_second_soliciting)"
  using UpdateAddresses_withdrawal [of "ex_env []" ex_second_soliciting] reachable_ex_second_soliciting
  by (simp add: ex_second_soliciting_state ex_env_def)

section \<open>Counting the requested bindings\<close>

lemma length_be_bytes [simp]: "length (be_bytes n w) = n"
  by (simp add: be_bytes_def)

lemma be_word_be_bytes_16: "be_word (be_bytes 2 (w::16 word)) = w"
  unfolding be_word_def be_bytes_def
  apply (simp add: numeral_2_eq_2)
  apply (rule bit_word_eqI)
  apply (auto simp: bit_simps)
  done

lemma count_associations_eq:
  "count_associations r ias count = count + of_nat (length (filter (requested_for r) ias))"
  by (induction ias arbitrary: count) (auto simp: requested_for_def)

lemma IaNa_length_eq:
  assumes "k < 256"
  shows "unat (IaNa_length (of_nat k)) = (sizeof_IaNa - sizeof_Option) + k * sizeof_IaAddress"
proof -
  have u: "(ucast (of_nat k :: 8 word) :: 16 word) = of_nat k"
    using assms by (simp add: unsigned_of_nat take_bit_nat_eq_self)
  have e: "IaNa_length (of_nat k) = (of_nat (12 + 28 * k) :: 16 word)"
    by (simp add: IaNa_length_def u wire_defs)
  have g: "unat (of_nat n :: 16 word) = n" if "n < 65536" for n
    using that by (simp add: unat_of_nat)
  have f: "unat (of_nat (12 + 28 * k) :: 16 word) = 12 + 28 * k"
    by (rule g) (use assms in simp)
  have h: "(sizeof_IaNa - sizeof_Option) + k * sizeof_IaAddress = 12 + 28 * k"
    by (simp add: wire_defs)
  show ?thesis unfolding e h by (rule f)
qed

lemma length_IaAddress_bytes [simp]: "length (IaAddress_bytes a p v) = sizeof_IaAddress"
  by (simp add: IaAddress_bytes_def wire_defs)

lemma length_IaNa_bytes [simp]: "length (IaNa_bytes l) = sizeof_IaNa"
  by (simp add: IaNa_bytes_def wire_defs)

lemma requested_for_alt:
  "requested_for r ia \<longleftrightarrow>
     (mStatus ia = kIaStatusSolicit \<or> mStatus ia = kIaStatusSoliciting) \<and> mPrefixAgentRloc ia = r"
  by (cases "mStatus ia") (simp_all add: requested_for_def)

lemma append_addresses_eq:
  assumes "length msg + sizeof_IaAddress * length (filter (requested_for r) ias) \<le> cap"
  shows "append_addresses cap r ias msg =
           Inr (msg @ concat (map (\<lambda>ia. IaAddress_bytes (mAddress (mNetifAddress ia)) 0 0)
                                  (filter (requested_for r) ias)))"
  using assms
proof (induction ias arbitrary: msg)
  case Nil
  then show ?case by simp
next
  case (Cons ia ias)
  show ?case
  proof (cases "requested_for r ia")
    case True
    have "length (msg @ IaAddress_bytes (mAddress (mNetifAddress ia)) 0 0) +
            sizeof_IaAddress * length (filter (requested_for r) ias) \<le> cap"
      using Cons.prems True by simp
    from Cons.IH [OF this] show ?thesis
      using True Cons.prems
      by (simp add: requested_for_alt [symmetric] Append_def SuccessOrExit_def)
  next
    case False
    then show ?thesis using Cons by (simp add: requested_for_alt [symmetric])
  qed
qed

section \<open>Every event keeps the pool invariant\<close>

lemma ok_step_refl [simp]: "ok_step ia ia"
  by (auto simp: ok_step_def)

lemma ok_step_trans: "ok_step a b \<Longrightarrow> ok_step b c \<Longrightarrow> ok_step a c"
  by (auto simp: ok_step_def)

lemma ok_steps_refl [simp]: "list_all2 ok_step ias ias"
  by (simp add: list_all2_refl)

lemma ok_steps_trans:
  "list_all2 ok_step xs ys \<Longrightarrow> list_all2 ok_step ys zs \<Longrightarrow> list_all2 ok_step xs zs"
  by (rule list_all2_trans [of ok_step ok_step ok_step]) (auto intro: ok_step_trans)

lemma pool_inv_length: "pool_inv N c \<Longrightarrow> length (mIdentityAssociations c) = N"
  unfolding pool_inv_def by blast

lemma pool_inv_soliciting:
  "pool_inv N c \<Longrightarrow> i < N \<Longrightarrow> mStatus (mIdentityAssociations c ! i) = kIaStatusSoliciting \<Longrightarrow>
   mIdentityAssociationCurrent c = Some i"
  unfolding pool_inv_def by blast

lemma pool_inv_current: "pool_inv N c \<Longrightarrow> mIdentityAssociationCurrent c = Some i \<Longrightarrow> i < N"
  unfolding pool_inv_def by blast

lemma pool_inv_lifetime:
  "pool_inv N c \<Longrightarrow> ia \<in> set (mIdentityAssociations c) \<Longrightarrow>
   mStatus ia = kIaStatusSolicit \<or> mStatus ia = kIaStatusSoliciting \<Longrightarrow> mValidLifetime ia = 0"
  unfolding pool_inv_def by blast

lemma pool_inv_ok_steps:
  assumes inv: "pool_inv N c"
    and steps: "list_all2 ok_step (mIdentityAssociations c) (mIdentityAssociations c')"
    and cur: "mIdentityAssociationCurrent c' = mIdentityAssociationCurrent c"
  shows "pool_inv N c'"
proof -
  let ?xs = "mIdentityAssociations c" and ?ys = "mIdentityAssociations c'"
  have lx: "length ?xs = N" using inv by (rule pool_inv_length)
  have ly: "length ?ys = N" using list_all2_lengthD [OF steps] lx by simp
  have st: "ok_step (?xs ! i) (?ys ! i)" if "i < N" for i
    using list_all2_nthD [OF steps, of i] that lx by simp
  have a: "mIdentityAssociationCurrent c' = Some i"
    if i: "i < N" and s: "mStatus (?ys ! i) = kIaStatusSoliciting" for i
  proof -
    from st [OF i] s have "mStatus (?xs ! i) = kIaStatusSoliciting" by (simp add: ok_step_def)
    with inv i have "mIdentityAssociationCurrent c = Some i" by (rule pool_inv_soliciting)
    with cur show ?thesis by simp
  qed
  have b: "mValidLifetime ia = 0"
    if m: "ia \<in> set ?ys" and s: "mStatus ia = kIaStatusSolicit \<or> mStatus ia = kIaStatusSoliciting" for ia
  proof -
    from m ly obtain i where i: "i < N" "ia = ?ys ! i" by (auto simp: in_set_conv_nth)
    have x: "?xs ! i \<in> set ?xs" using i lx by simp
    from st [OF i(1)] s i(2)
    have "mValidLifetime ia = 0 \<or>
        ((mStatus (?xs ! i) = kIaStatusSolicit \<or> mStatus (?xs ! i) = kIaStatusSoliciting) \<and>
         mValidLifetime ia = mValidLifetime (?xs ! i))"
      unfolding ok_step_def by blast
    moreover have "mValidLifetime (?xs ! i) = 0"
      if "mStatus (?xs ! i) = kIaStatusSolicit \<or> mStatus (?xs ! i) = kIaStatusSoliciting"
      using inv x that by (rule pool_inv_lifetime)
    ultimately show ?thesis by auto
  qed
  have c: "i < N" if "mIdentityAssociationCurrent c' = Some i" for i
    using inv that unfolding cur by (rule pool_inv_current)
  show ?thesis unfolding pool_inv_def
  proof (intro conjI allI impI ballI)
    show "length ?ys = N" by (rule ly)
  next
    fix i assume "i < N" "mStatus (?ys ! i) = kIaStatusSoliciting"
    then show "mIdentityAssociationCurrent c' = Some i" by (rule a)
  next
    fix i assume "mIdentityAssociationCurrent c' = Some i"
    then show "i < N" by (rule c)
  next
    fix ia assume "ia \<in> set ?ys" "mStatus ia = kIaStatusSolicit \<or> mStatus ia = kIaStatusSoliciting"
    then show "mValidLifetime ia = 0" by (rule b)
  qed
qed

lemma remove_addresses_ok: "list_all2 ok_step ias (remove_addresses configs ias)"
  by (simp add: remove_addresses_def list_all2_map2 list_all2_refl ok_step_def list.rel_refl)

lemma find_association_found:
  "find_association p ias k idA = (True, r) \<Longrightarrow>
     \<exists>i. r = Some (k + i) \<and> i < length ias \<and> mStatus (ias ! i) \<noteq> kIaStatusInvalid \<and>
         MatchNetifAddressWithPrefix (mNetifAddress (ias ! i)) p"
proof (induction ias arbitrary: k idA)
  case Nil
  then show ?case by simp
next
  case (Cons ia ias)
  show ?case
  proof (cases "mStatus ia \<noteq> kIaStatusInvalid \<and> MatchNetifAddressWithPrefix (mNetifAddress ia) p")
    case True
    with Cons.prems show ?thesis by (intro exI [of _ 0]) auto
  next
    case False
    with Cons.prems obtain idA' where "find_association p ias (Suc k) idA' = (True, r)"
      by (auto split: if_splits)
    from Cons.IH [OF this] obtain i where "r = Some (Suc k + i)" "i < length ias"
      "mStatus (ias ! i) \<noteq> kIaStatusInvalid" "MatchNetifAddressWithPrefix (mNetifAddress (ias ! i)) p"
      by blast
    then show ?thesis by (intro exI [of _ "Suc i"]) auto
  qed
qed

lemma find_association_free_slot:
  "find_association p ias k idA = (False, Some j) \<Longrightarrow>
     idA = Some j \<or> (idA = None \<and> k \<le> j \<and> j - k < length ias \<and> mStatus (ias ! (j - k)) = kIaStatusInvalid)"
proof (induction ias arbitrary: k idA)
  case Nil
  then show ?case by simp
next
  case (Cons ia ias)
  show ?case
  proof (cases "mStatus ia = kIaStatusInvalid")
    case True
    with Cons.prems have "find_association p ias (Suc k) (if idA = None then Some k else idA) = (False, Some j)"
      by simp
    from Cons.IH [OF this] True show ?thesis
      by (auto split: if_splits)
  next
    case False
    with Cons.prems have f: "find_association p ias (Suc k) idA = (False, Some j)"
      by (auto split: if_splits)
    from Cons.IH [OF f] show ?thesis
      by (auto simp: Suc_diff_le)
  qed
qed

lemma add_prefix_ok: "list_all2 ok_step ias (add_prefix config ias)"
proof (cases "mDhcp config")
  case False
  then show ?thesis by (simp add: add_prefix_def)
next
  case True
  obtain found r where f: "find_association (cfgPrefix config) ias 0 None = (found, r)"
    by (cases "find_association (cfgPrefix config) ias 0 None")
  show ?thesis
  proof (cases r)
    case None
    with f True show ?thesis by (cases found) (simp_all add: add_prefix_def)
  next
    case (Some i)
    have "list_all2 ok_step ias (ias[i := x])" if "ok_step (ias ! i) x" for x
    proof (cases "i < length ias")
      case True
      with that show ?thesis by (simp add: list_all2_conv_all_nth nth_list_update)
    next
      case False
      then have "length ias \<le> i" by simp
      then have "ias[i := x] = ias" by (rule list_update_beyond)
      then show ?thesis by simp
    qed
    moreover have "ok_step (ias ! i) ((ias ! i)\<lparr>mPrefixAgentRloc := mRloc16 config\<rparr>)"
      by (simp add: ok_step_def)
    moreover have "ok_step (ias ! i) (claim config (ias ! i))"
      by (simp add: ok_step_def claim_def)
    ultimately show ?thesis using f True Some
      by (cases found) (simp_all add: add_prefix_def)
  qed
qed

lemma add_prefixes_ok: "list_all2 ok_step ias (add_prefixes configs ias)"
  unfolding add_prefixes_def
proof (induction configs arbitrary: ias)
  case Nil
  then show ?case by simp
next
  case (Cons c cs)
  from ok_steps_trans [OF add_prefix_ok [of ias c] Cons.IH [of "add_prefix c ias"]]
  show ?case by simp
qed

lemma accept_address_ok: "ok_step ia (accept_address a p v ia)"
  by (simp add: ok_step_def accept_address_def)

lemma assign_address_ok: "list_all2 ok_step ias (fst (assign_address a p v ias))"
  by (induction ias) (auto simp: accept_address_ok split: prod.splits)

lemma next_solicit_bound:
  "next_solicit ias k = Some i \<Longrightarrow> k \<le> i \<and> i - k < length ias"
proof (induction ias arbitrary: k)
  case Nil
  then show ?case by simp
next
  case (Cons ia ias)
  show ?case
  proof (cases "mStatus ia \<noteq> kIaStatusSolicit")
    case True
    with Cons.prems have "next_solicit ias (Suc k) = Some i" by simp
    from Cons.IH [OF this] show ?thesis by auto
  next
    case False
    with Cons.prems show ?thesis by simp
  qed
qed

lemma pool_invI:
  assumes "length (mIdentityAssociations c) = N"
    and "\<And>i. i < N \<Longrightarrow> mStatus (mIdentityAssociations c ! i) = kIaStatusSoliciting \<Longrightarrow>
           mIdentityAssociationCurrent c = Some i"
    and "\<And>i. mIdentityAssociationCurrent c = Some i \<Longrightarrow> i < N"
    and "\<And>ia. ia \<in> set (mIdentityAssociations c) \<Longrightarrow>
           mStatus ia = kIaStatusSolicit \<or> mStatus ia = kIaStatusSoliciting \<Longrightarrow> mValidLifetime ia = 0"
  shows "pool_inv N c"
  unfolding pool_inv_def using assms by blast

lemma pool_inv_init: "pool_inv N (Client_init N)"
  by (rule pool_invI) (simp_all add: Client_init_def)

lemma pool_inv_cong:
  assumes "pool_inv N c"
    and "mIdentityAssociations c' = mIdentityAssociations c"
    and "mIdentityAssociationCurrent c' = mIdentityAssociationCurrent c"
  shows "pool_inv N c'"
  using assms(1) by (rule pool_inv_ok_steps) (simp_all add: assms)

lemma next_solicit_status:
  "next_solicit ias k = Some i \<Longrightarrow> mStatus (ias ! (i - k)) = kIaStatusSolicit"
proof (induction ias arbitrary: k)
  case Nil
  then show ?case by simp
next
  case (Cons ia ias)
  show ?case
  proof (cases "mStatus ia \<noteq> kIaStatusSolicit")
    case True
    with Cons.prems have n: "next_solicit ias (Suc k) = Some i" by simp
    from next_solicit_bound [OF n] have "i - k = Suc (i - Suc k)" by linarith
    with Cons.IH [OF n] show ?thesis by simp
  next
    case False
    with Cons.prems show ?thesis by simp
  qed
qed

text \<open>When the current binding is not soliciting, no binding is.\<close>

lemma pool_inv_none_soliciting:
  assumes inv: "pool_inv N c"
    and idle: "case mIdentityAssociationCurrent c of None \<Rightarrow> True
               | Some cur \<Rightarrow> mStatus (mIdentityAssociations c ! cur) \<noteq> kIaStatusSoliciting"
    and i: "i < N"
  shows "mStatus (mIdentityAssociations c ! i) \<noteq> kIaStatusSoliciting"
proof
  assume "mStatus (mIdentityAssociations c ! i) = kIaStatusSoliciting"
  with inv i have "mIdentityAssociationCurrent c = Some i" by (rule pool_inv_soliciting)
  with idle \<open>mStatus (mIdentityAssociations c ! i) = kIaStatusSoliciting\<close> show False by simp
qed

lemma pool_inv_ProcessNext:
  assumes inv: "pool_inv N c"
  shows "pool_inv N (snd (ProcessNextIdentityAssociation env c))"
proof (cases "case mIdentityAssociationCurrent c of None \<Rightarrow> True
               | Some cur \<Rightarrow> mStatus (mIdentityAssociations c ! cur) \<noteq> kIaStatusSoliciting")
  case False
  then show ?thesis using inv by (simp add: ProcessNextIdentityAssociation_def)
next
  case idle: True
  show ?thesis
  proof (cases "next_solicit (mIdentityAssociations c) 0")
    case None
    have "pool_inv N (c\<lparr>mTrickleRunning := False\<rparr>)"
      using inv by (rule pool_inv_cong) simp_all
    with None idle show ?thesis by (simp add: ProcessNextIdentityAssociation_def)
  next
    case (Some j)
    let ?c' = "c\<lparr>mTrickleRunning := False, mTransactionId := envRandom env,
                 mIdentityAssociationCurrent := Some j, mTrickleRunning := True\<rparr>"
    have len: "length (mIdentityAssociations c) = N" using inv by (rule pool_inv_length)
    have j: "j < N" using next_solicit_bound [OF Some] len by simp
    have "pool_inv N ?c'"
    proof (rule pool_invI)
      show "length (mIdentityAssociations ?c') = N" using len by simp
    next
      fix i assume "i < N" "mStatus (mIdentityAssociations ?c' ! i) = kIaStatusSoliciting"
      with pool_inv_none_soliciting [OF inv idle, of i] show "mIdentityAssociationCurrent ?c' = Some i"
        by simp
    next
      fix i assume "mIdentityAssociationCurrent ?c' = Some i"
      with j show "i < N" by simp
    next
      fix ia assume "ia \<in> set (mIdentityAssociations ?c')"
        "mStatus ia = kIaStatusSolicit \<or> mStatus ia = kIaStatusSoliciting"
      then show "mValidLifetime ia = 0" using pool_inv_lifetime [OF inv, of ia] by simp
    qed
    with Some idle show ?thesis by (simp add: ProcessNextIdentityAssociation_def)
  qed
qed

lemma pool_inv_Start: "pool_inv N c \<Longrightarrow> pool_inv N (Start env c)"
proof -
  assume inv: "pool_inv N c"
  have "pool_inv N (c\<lparr>mSocketBound := True\<rparr>)" using inv by (rule pool_inv_cong) simp_all
  then have "pool_inv N (snd (ProcessNextIdentityAssociation env (c\<lparr>mSocketBound := True\<rparr>)))"
    by (rule pool_inv_ProcessNext)
  with inv show ?thesis by (simp add: Start_def)
qed

lemma pool_inv_Stop: "pool_inv N c \<Longrightarrow> pool_inv N (Stop c)"
  by (erule pool_inv_cong) (simp_all add: Stop_def)

lemma pool_inv_UpdateAddresses:
  assumes inv: "pool_inv N c"
  shows "pool_inv N (UpdateAddresses env c)"
proof -
  let ?cs = "envNetworkData env"
  let ?c2 = "c\<lparr>mNetifCalls := mNetifCalls c @ remove_calls ?cs (mIdentityAssociations c),
               mIdentityAssociations := add_prefixes ?cs (remove_addresses ?cs (mIdentityAssociations c))\<rparr>"
  have "list_all2 ok_step (mIdentityAssociations c) (mIdentityAssociations ?c2)"
    using ok_steps_trans [OF remove_addresses_ok add_prefixes_ok] by simp
  with inv have "pool_inv N ?c2" by (rule pool_inv_ok_steps) simp
  then have "pool_inv N (Start env ?c2)" "pool_inv N (Stop ?c2)"
    by (rule pool_inv_Start, rule pool_inv_Stop)
  then show ?thesis by (simp add: UpdateAddresses_def Let_def)
qed

lemma Solicit_fields [simp]:
  "mIdentityAssociations (Solicit env c r) = mIdentityAssociations c"
  "mIdentityAssociationCurrent (Solicit env c r) = mIdentityAssociationCurrent c"
  "mNetifCalls (Solicit env c r) = mNetifCalls c"
  "mSocketBound (Solicit env c r) = mSocketBound c"
  "mTrickleRunning (Solicit env c r) = mTrickleRunning c"
  "mTransactionId (Solicit env c r) = mTransactionId c"
  "mStartTime (Solicit env c r) = mStartTime c"
  by (simp_all add: Solicit_def split: sum.splits)

lemma pool_inv_Solicit: "pool_inv N c \<Longrightarrow> pool_inv N (Solicit env c r)"
  by (erule pool_inv_cong) simp_all

lemma pool_inv_HandleTrickleTimer:
  assumes inv: "pool_inv N c"
  shows "pool_inv N (snd (HandleTrickleTimer env c))"
proof (cases "mIdentityAssociationCurrent c")
  case None
  with inv show ?thesis by (simp add: HandleTrickleTimer_def)
next
  case (Some cur)
  let ?ias = "mIdentityAssociations c"
  have len: "length ?ias = N" using inv by (rule pool_inv_length)
  have cur: "cur < N" using inv Some by (rule pool_inv_current)
  show ?thesis
  proof (cases "mStatus (?ias ! cur)")
    case kIaStatusInvalid
    with Some inv show ?thesis by (simp add: HandleTrickleTimer_def)
  next
    case kIaStatusSoliciting
    with Some pool_inv_Solicit [OF inv] show ?thesis by (simp add: HandleTrickleTimer_def)
  next
    case kIaStatusSolicitReplied
    have "pool_inv N (c\<lparr>mIdentityAssociationCurrent := None\<rparr>)"
    proof (rule pool_invI)
      show "length (mIdentityAssociations (c\<lparr>mIdentityAssociationCurrent := None\<rparr>)) = N"
        using len by simp
    next
      fix i assume i: "i < N"
        and "mStatus (mIdentityAssociations (c\<lparr>mIdentityAssociationCurrent := None\<rparr>) ! i) = kIaStatusSoliciting"
      then have "mStatus (?ias ! i) = kIaStatusSoliciting" by simp
      with inv i have "mIdentityAssociationCurrent c = Some i" by (rule pool_inv_soliciting)
      with Some kIaStatusSolicitReplied \<open>mStatus (?ias ! i) = kIaStatusSoliciting\<close>
      show "mIdentityAssociationCurrent (c\<lparr>mIdentityAssociationCurrent := None\<rparr>) = Some i"
        by simp
    next
      fix i assume "mIdentityAssociationCurrent (c\<lparr>mIdentityAssociationCurrent := None\<rparr>) = Some i"
      then show "i < N" by simp
    next
      fix ia assume "ia \<in> set (mIdentityAssociations (c\<lparr>mIdentityAssociationCurrent := None\<rparr>))"
        "mStatus ia = kIaStatusSolicit \<or> mStatus ia = kIaStatusSoliciting"
      then show "mValidLifetime ia = 0" using pool_inv_lifetime [OF inv, of ia] by simp
    qed
    then have p: "pool_inv N (snd (ProcessNextIdentityAssociation env (c\<lparr>mIdentityAssociationCurrent := None\<rparr>)))"
      by (rule pool_inv_ProcessNext)
    obtain r c1 where pn: "ProcessNextIdentityAssociation env (c\<lparr>mIdentityAssociationCurrent := None\<rparr>) = (r, c1)"
      by (cases "ProcessNextIdentityAssociation env (c\<lparr>mIdentityAssociationCurrent := None\<rparr>)")
    with p have c1: "pool_inv N c1" by simp
    have "pool_inv N (Stop (c1\<lparr>mTrickleRunning := False\<rparr>))"
      using c1 by (rule pool_inv_cong) simp_all
    with c1 pn Some kIaStatusSolicitReplied show ?thesis
      by (cases r) (simp_all add: HandleTrickleTimer_def)
  next
    case kIaStatusSolicit
    let ?c1 = "c\<lparr>mStartTime := envNow env,
                 mIdentityAssociations := ?ias[cur := (?ias ! cur)\<lparr>mStatus := kIaStatusSoliciting\<rparr>]\<rparr>"
    have m: "?ias ! cur \<in> set ?ias" using cur len by simp
    have zero: "mValidLifetime (?ias ! cur) = 0"
      using inv m kIaStatusSolicit by (intro pool_inv_lifetime [OF inv m]) simp
    have "pool_inv N ?c1"
    proof (rule pool_invI)
      show "length (mIdentityAssociations ?c1) = N" using len by simp
    next
      fix i assume i: "i < N" and s: "mStatus (mIdentityAssociations ?c1 ! i) = kIaStatusSoliciting"
      show "mIdentityAssociationCurrent ?c1 = Some i"
      proof (cases "i = cur")
        case True
        with Some show ?thesis by simp
      next
        case False
        with s i len have "mStatus (?ias ! i) = kIaStatusSoliciting" by simp
        with inv i have "mIdentityAssociationCurrent c = Some i" by (rule pool_inv_soliciting)
        then show ?thesis by simp
      qed
    next
      fix i assume "mIdentityAssociationCurrent ?c1 = Some i"
      with Some cur show "i < N" by simp
    next
      fix ia assume ia: "ia \<in> set (mIdentityAssociations ?c1)"
        and s: "mStatus ia = kIaStatusSolicit \<or> mStatus ia = kIaStatusSoliciting"
      from ia have "ia = (?ias ! cur)\<lparr>mStatus := kIaStatusSoliciting\<rparr> \<or> ia \<in> set ?ias"
        using set_update_subset_insert [of ?ias cur] by auto
      then show "mValidLifetime ia = 0"
      proof
        assume "ia = (?ias ! cur)\<lparr>mStatus := kIaStatusSoliciting\<rparr>"
        with zero show ?thesis by simp
      next
        assume "ia \<in> set ?ias"
        with inv show ?thesis using s by (rule pool_inv_lifetime)
      qed
    qed
    then have "pool_inv N (Solicit env ?c1 (mPrefixAgentRloc (mIdentityAssociations ?c1 ! cur)))"
      by (rule pool_inv_Solicit)
    with Some kIaStatusSolicit show ?thesis by (simp add: HandleTrickleTimer_def Let_def)
  qed
qed

lemma pool_inv_TrickleTimerFired: "pool_inv N c \<Longrightarrow> pool_inv N (TrickleTimerFired env c)"
proof -
  assume inv: "pool_inv N c"
  obtain r c1 where h: "HandleTrickleTimer env c = (r, c1)"
    by (cases "HandleTrickleTimer env c")
  with pool_inv_HandleTrickleTimer [OF inv, of env] have c1: "pool_inv N c1" by simp
  have "pool_inv N (c1\<lparr>mTrickleRunning := False\<rparr>)" using c1 by (rule pool_inv_cong) simp_all
  with c1 h show ?thesis by (cases r) (simp_all add: TrickleTimerFired_def)
qed

lemma pool_inv_ProcessIaAddress:
  assumes inv: "pool_inv N c"
  shows "pool_inv N (snd (ProcessIaAddress c m off))"
proof -
  have "pool_inv N (c\<lparr>mIdentityAssociations := fst (assign_address a p v (mIdentityAssociations c)),
                       mNetifCalls := calls\<rparr>)" for a p v calls
    using inv by (rule pool_inv_ok_steps) (simp_all add: assign_address_ok)
  then show ?thesis using inv
    by (simp add: ProcessIaAddress_def Let_def split: prod.splits) (metis fst_conv)
qed

lemma ProcessIaNa_loop_preserves:
  assumes step: "\<And>c m off. Q c \<Longrightarrow> Q (snd (ProcessIaAddress c m off))"
    and run: "ProcessIaNa_loop c m off len = Some r"
    and q: "Q c"
  shows "Q (snd r)"
proof -
  have "Q c \<longrightarrow> Q (snd r)"
  proof (rule ProcessIaNa_loop.raw_induct [where P = "\<lambda>c m off len r. Q c \<longrightarrow> Q (snd r)", OF _ run])
    fix f c m off len r
    assume ih: "\<And>c m off len r. f c m off len = Some r \<Longrightarrow> Q c \<longrightarrow> Q (snd r)"
      and st: "(if 0 < len
        then Option.bind (FindOption m off len kOptionIaAddress)
             (\<lambda>optionOffset.
                if optionOffset = 0 then Some (OT_ERROR_NONE, c)
                else case ProcessIaAddress c m optionOffset of
                       (error, c1) \<Rightarrow>
                         if error \<noteq> OT_ERROR_NONE then Some (error, c1)
                         else f c1 m (optionOffset + of_nat sizeof_IaAddress)
                                (len - ((optionOffset - off) + of_nat sizeof_IaAddress)))
        else Some (OT_ERROR_NONE, c)) = Some r"
    show "Q c \<longrightarrow> Q (snd r)"
    proof
      assume q: "Q c"
      show "Q (snd r)"
      proof (cases "0 < len")
        case False
        with st q show ?thesis by auto
      next
        case True
        with st obtain oo where oo: "FindOption m off len kOptionIaAddress = Some oo"
          and rest: "(if oo = 0 then Some (OT_ERROR_NONE, c)
                else case ProcessIaAddress c m oo of
                       (error, c1) \<Rightarrow>
                         if error \<noteq> OT_ERROR_NONE then Some (error, c1)
                         else f c1 m (oo + of_nat sizeof_IaAddress)
                                (len - ((oo - off) + of_nat sizeof_IaAddress))) = Some r"
          by (auto simp: bind_eq_Some_conv)
        obtain e c1 where p: "ProcessIaAddress c m oo = (e, c1)" by (cases "ProcessIaAddress c m oo")
        have q1: "Q c1" using step [OF q, of m oo] p by simp
        show ?thesis
        proof (cases "oo = 0")
          case True
          with rest q show ?thesis by auto
        next
          case False
          show ?thesis
          proof (cases "e = OT_ERROR_NONE")
            case True
            with rest False p have "f c1 m (oo + of_nat sizeof_IaAddress)
                                (len - ((oo - off) + of_nat sizeof_IaAddress)) = Some r" by simp
            from ih [OF this] q1 show ?thesis by simp
          next
            case False
            with rest \<open>oo \<noteq> 0\<close> p q1 show ?thesis by auto
          qed
        qed
      qed
    qed
  qed
  with q show ?thesis by simp
qed

lemma if_Some_cases:
  "(if b then Some c else X) = Some c' \<Longrightarrow> (c' = c \<Longrightarrow> R) \<Longrightarrow> (\<not> b \<Longrightarrow> X = Some c' \<Longrightarrow> R) \<Longrightarrow> R"
  by (simp split: if_splits)

lemma bind_Some_cases:
  "Option.bind x f = Some y \<Longrightarrow> (\<And>v. x = Some v \<Longrightarrow> f v = Some y \<Longrightarrow> R) \<Longrightarrow> R"
  by (auto simp: bind_eq_Some_conv)

lemma ProcessIaNa_cases:
  assumes "ProcessIaNa c m off = Some r"
  shows "snd r = c \<or> (\<exists>len. ProcessIaNa_loop c m (off + of_nat sizeof_IaNa) len = Some r)"
  using assms
  apply (simp only: ProcessIaNa_def Let_def)
  apply (erule if_Some_cases, simp)
  apply (erule if_Some_cases, simp)
  apply (erule bind_Some_cases)
  apply (erule if_Some_cases, simp)
  apply (rule disjI2)
  apply (erule exI)
  done

lemma ProcessIaNa_preserves:
  assumes step: "\<And>c m off. Q c \<Longrightarrow> Q (snd (ProcessIaAddress c m off))"
    and run: "ProcessIaNa c m off = Some r"
    and q: "Q c"
  shows "Q (snd r)"
proof -
  from ProcessIaNa_cases [OF run] show ?thesis
  proof
    assume "snd r = c" with q show ?thesis by simp
  next
    assume "\<exists>len. ProcessIaNa_loop c m (off + of_nat sizeof_IaNa) len = Some r"
    then obtain len where "ProcessIaNa_loop c m (off + of_nat sizeof_IaNa) len = Some r" ..
    from step this q show ?thesis by (rule ProcessIaNa_loop_preserves)
  qed
qed

lemma ProcessReply_cases:
  assumes "ProcessReply env c m = Some c'"
  shows "c' = c \<or> (\<exists>off e c1. ProcessIaNa c m off = Some (e, c1) \<and>
                      (c' = c1 \<or> c' = snd (HandleTrickleTimer env c1)))"
  using assms
  apply (simp only: ProcessReply_def Let_def)
  apply (erule bind_Some_cases)
  apply (erule if_Some_cases, simp)
  apply (erule bind_Some_cases)
  apply (erule if_Some_cases, simp)
  apply (erule if_Some_cases, simp)
  apply (erule bind_Some_cases)
  apply (erule if_Some_cases, simp)
  apply (erule if_Some_cases, simp)
  apply (erule bind_Some_cases)
  apply (erule if_Some_cases, simp)
  apply (erule bind_Some_cases)
  apply (erule if_Some_cases, simp)
  apply (erule bind_Some_cases)
  apply (rule disjI2)
  apply (rename_tac o1 o2 o3 o4 o5 r)
  apply (case_tac r)
  apply (rule_tac x = o5 in exI)
  apply (rename_tac e c1)
  apply (rule_tac x = e in exI)
  apply (rule_tac x = c1 in exI)
  apply (simp split: if_splits)
  done

lemma HandleUdpReceive_cases:
  assumes "HandleUdpReceive env c m = Some c'"
  shows "c' = c \<or> ProcessReply env c (MoveOffset m sizeof_Header) = Some c'"
  using assms by (auto simp: HandleUdpReceive_def Let_def split: if_splits)

lemma pool_inv_HandleUdpReceive:
  assumes inv: "pool_inv N c" and run: "HandleUdpReceive env c m = Some c'"
  shows "pool_inv N c'"
proof -
  from HandleUdpReceive_cases [OF run] show ?thesis
  proof
    assume "c' = c" with inv show ?thesis by simp
  next
    assume "ProcessReply env c (MoveOffset m sizeof_Header) = Some c'"
    from ProcessReply_cases [OF this] show ?thesis
    proof
      assume "c' = c" with inv show ?thesis by simp
    next
      assume "\<exists>off e c1. ProcessIaNa c (MoveOffset m sizeof_Header) off = Some (e, c1) \<and>
                      (c' = c1 \<or> c' = snd (HandleTrickleTimer env c1))"
      then obtain off e c1 where p: "ProcessIaNa c (MoveOffset m sizeof_Header) off = Some (e, c1)"
        and c': "c' = c1 \<or> c' = snd (HandleTrickleTimer env c1)" by blast
      have "pool_inv N (snd (e, c1))"
        using pool_inv_ProcessIaAddress p inv
        by (rule ProcessIaNa_preserves [where Q = "pool_inv N"])
      then have c1: "pool_inv N c1" by simp
      from c' show ?thesis
      proof
        assume "c' = c1" with c1 show ?thesis by simp
      next
        assume "c' = snd (HandleTrickleTimer env c1)"
        with pool_inv_HandleTrickleTimer [OF c1, of env] show ?thesis by simp
      qed
    qed
  qed
qed

lemma reachable_pool_inv: "reachable N c \<Longrightarrow> pool_inv N c"
proof (induction rule: reachable.induct)
  case reachable_init
  show ?case by (rule pool_inv_init)
next
  case (reachable_update c env)
  then show ?case by (intro pool_inv_UpdateAddresses)
next
  case (reachable_timer c env)
  then show ?case by (intro pool_inv_TrickleTimerFired)
next
  case (reachable_receive c m env c')
  then show ?case by (intro pool_inv_HandleUdpReceive [of N c env m c'])
qed

section \<open>The invariants in every reachable state\<close>

lemma reachable_ex_soliciting: "reachable 1 ex_soliciting"
  unfolding ex_soliciting_def
proof (rule reachable_timer)
  show "reachable 1 (UpdateAddresses (ex_env [ex_config 1 64 7]) (Client_init 1))"
    by (rule reachable_update) (rule reachable_init)
  show "mTrickleRunning (UpdateAddresses (ex_env [ex_config 1 64 7]) (Client_init 1))"
    by code_simp
qed

lemma reachable_ex_replied: "reachable 1 ex_replied"
proof (rule reachable_receive [OF reachable_ex_soliciting])
  show "mSocketBound ex_soliciting" by code_simp
  show "message_ok (ex_reply 5 100)" by code_simp
  show "HandleUdpReceive (ex_env [ex_config 1 64 7]) ex_soliciting (ex_reply 5 100) = Some ex_replied"
    by code_simp
qed

lemma reachable_ex_withdrawn: "reachable 1 ex_withdrawn"
  unfolding ex_withdrawn_def by (rule reachable_update) (rule reachable_ex_replied)

text \<open>
  C2. In every state reachable from the constructor by reconciling, the trickle timer
  firing and datagrams arriving, at most one binding of the pool is soliciting.
\<close>

theorem at_most_one_soliciting:
  assumes "reachable N c"
  shows "length (filter (\<lambda>ia. mStatus ia = kIaStatusSoliciting) (mIdentityAssociations c)) \<le> 1"
proof -
  let ?ias = "mIdentityAssociations c"
  let ?S = "{i. i < length ?ias \<and> mStatus (?ias ! i) = kIaStatusSoliciting}"
  have inv: "pool_inv N c" using assms by (rule reachable_pool_inv)
  have len: "length ?ias = N" using inv by (rule pool_inv_length)
  have "?S \<subseteq> {i. mIdentityAssociationCurrent c = Some i}"
    using pool_inv_soliciting [OF inv] len by auto
  also have "\<dots> \<subseteq> {the (mIdentityAssociationCurrent c)}" by auto
  finally have "card ?S \<le> card {the (mIdentityAssociationCurrent c)}"
    by (intro card_mono) simp_all
  then show ?thesis by (simp add: length_filter_conv_card)
qed

theorem at_most_one_soliciting_witness:
  "reachable 1 ex_soliciting
   \<and> mStatus (mIdentityAssociations ex_soliciting ! 0) = kIaStatusSoliciting
   \<and> length (filter (\<lambda>ia. mStatus ia = kIaStatusSoliciting) (mIdentityAssociations ex_soliciting)) \<le> 1"
proof -
  have "mStatus (mIdentityAssociations ex_soliciting ! 0) = kIaStatusSoliciting" by code_simp
  with reachable_ex_soliciting at_most_one_soliciting [OF reachable_ex_soliciting]
  show ?thesis by simp
qed

text \<open>
  C4. The claim is that in every reachable state an invalid binding has a zero valid
  lifetime, also after reconciling has invalidated it. \<^verbatim>\<open>UpdateAddresses\<close> invalidates
  only bindings whose valid lifetime is not zero and sets nothing but the status: after
  a reply has granted the address for 100 seconds and the prefix is withdrawn, the
  binding is invalid with valid lifetime 100.
\<close>

theorem invalidated_binding_keeps_lifetime:
  "reachable 1 ex_withdrawn
   \<and> mStatus (mIdentityAssociations ex_withdrawn ! 0) = kIaStatusInvalid
   \<and> mValidLifetime (mIdentityAssociations ex_withdrawn ! 0) = 100"
proof -
  have "mStatus (mIdentityAssociations ex_withdrawn ! 0) = kIaStatusInvalid"
    "mValidLifetime (mIdentityAssociations ex_withdrawn ! 0) = 100"
    by code_simp+
  with reachable_ex_withdrawn show ?thesis by simp
qed

text \<open>
  C4, amended. In every reachable state a binding that waits to solicit or is
  soliciting has a zero valid lifetime. The lifetime is reset when \<^verbatim>\<open>UpdateAddresses\<close>
  claims a slot, not when it invalidates one: the removal loop leaves every valid
  lifetime as it is, and it removes only bindings whose lifetime is not zero.
\<close>

theorem waiting_binding_has_zero_lifetime:
  assumes "reachable N c"
  shows "(\<forall>ia \<in> set (mIdentityAssociations c).
            mStatus ia = kIaStatusSolicit \<or> mStatus ia = kIaStatusSoliciting \<longrightarrow> mValidLifetime ia = 0)
       \<and> mValidLifetime (claim config ia0) = 0
       \<and> map mValidLifetime (remove_addresses configs (mIdentityAssociations c))
           = map mValidLifetime (mIdentityAssociations c)
       \<and> (\<forall>ia \<in> set (mIdentityAssociations c). to_remove configs ia \<longrightarrow> mValidLifetime ia \<noteq> 0)"
proof -
  have inv: "pool_inv N c" using assms by (rule reachable_pool_inv)
  have a: "\<forall>ia \<in> set (mIdentityAssociations c).
            mStatus ia = kIaStatusSolicit \<or> mStatus ia = kIaStatusSoliciting \<longrightarrow> mValidLifetime ia = 0"
    using pool_inv_lifetime [OF inv] by blast
  have b: "mValidLifetime (claim config ia0) = 0" by (simp add: claim_def)
  have c: "map mValidLifetime (remove_addresses configs (mIdentityAssociations c))
           = map mValidLifetime (mIdentityAssociations c)"
    by (simp add: remove_addresses_def)
  have d: "\<forall>ia \<in> set (mIdentityAssociations c). to_remove configs ia \<longrightarrow> mValidLifetime ia \<noteq> 0"
    by (simp add: to_remove_def)
  from a b c d show ?thesis by blast
qed

theorem waiting_binding_has_zero_lifetime_witness:
  "reachable 1 ex_soliciting
   \<and> mStatus (mIdentityAssociations ex_soliciting ! 0) = kIaStatusSoliciting
   \<and> mValidLifetime (mIdentityAssociations ex_soliciting ! 0) = 0
   \<and> to_remove [] (mIdentityAssociations ex_replied ! 0)
   \<and> mValidLifetime (mIdentityAssociations ex_replied ! 0) \<noteq> 0"
proof -
  have s: "mStatus (mIdentityAssociations ex_soliciting ! 0) = kIaStatusSoliciting"
    and m: "mIdentityAssociations ex_soliciting ! 0 \<in> set (mIdentityAssociations ex_soliciting)"
    and t: "to_remove [] (mIdentityAssociations ex_replied ! 0)"
    and n: "mIdentityAssociations ex_replied ! 0 \<in> set (mIdentityAssociations ex_replied)"
    by code_simp+
  from waiting_binding_has_zero_lifetime [OF reachable_ex_soliciting] s m
  have z: "mValidLifetime (mIdentityAssociations ex_soliciting ! 0) = 0" by blast
  from waiting_binding_has_zero_lifetime [OF reachable_ex_replied, of _ _ "[]"] t n
  have "mValidLifetime (mIdentityAssociations ex_replied ! 0) \<noteq> 0" by blast
  with z reachable_ex_soliciting s t show ?thesis by blast
qed

section \<open>Scanning a sequence of options\<close>

lemma length_encode_option: "length (encode_option opt) = sizeof_Option + length (snd opt)"
  by (simp add: encode_option_def wire_defs)

lemma unat_of_nat16: "n < 65536 \<Longrightarrow> unat (of_nat n :: 16 word) = n"
  by (simp add: unat_of_nat)

lemma of_nat_le16: "n < 65536 \<Longrightarrow> (of_nat n :: 16 word) \<le> e \<longleftrightarrow> n \<le> unat e"
  by (simp add: word_le_nat_alt unat_of_nat16)

lemma Read_at:
  assumes "mBytes m = pre @ rest" "length (mBytes m) < 65536"
  shows "Read m (of_nat (length pre)) n = take n rest"
proof -
  have "length pre < 65536" using assms by simp
  then have "unat (of_nat (length pre) :: 16 word) = length pre" by (rule unat_of_nat16)
  then show ?thesis using assms(1) by (simp add: Read_def)
qed

lemma option_header:
  "take sizeof_Option (encode_option opt @ rest) =
     be_bytes 2 (fst opt) @ be_bytes 2 (of_nat (length (snd opt)) :: 16 word)"
  by (simp add: encode_option_def wire_defs)

lemma GetCode_header: "GetCode (be_bytes 2 c @ rest) = c"
  by (simp add: GetCode_def be_word_be_bytes_16)

lemma GetOptLength_header: "GetOptLength (be_bytes 2 c @ be_bytes 2 l @ rest) = l"
  by (simp add: GetOptLength_def be_word_be_bytes_16)

lemma FindOption_loop_options:
  assumes "mBytes m = pre @ encode_options opts" "length (mBytes m) < 65536"
  shows "FindOption_loop m (of_nat (length pre)) aEnd code =
           Some (of_nat (scan_options opts (length pre) (unat aEnd) code))"
  using assms
proof (induction opts arbitrary: pre)
  case Nil
  have lp: "length pre < 65536" using Nil by simp
  have "Read m (of_nat (length pre)) sizeof_Option = take sizeof_Option []"
    using Nil by (intro Read_at) (simp_all add: encode_options_def)
  then show ?case
    by (subst FindOption_loop.simps) (simp add: wire_defs)
next
  case (Cons opt opts)
  have lp: "length pre < 65536" using Cons.prems by simp
  have bytes: "mBytes m = pre @ (encode_option opt @ encode_options opts)"
    using Cons.prems by (simp add: encode_options_def)
  have rd: "Read m (of_nat (length pre)) sizeof_Option =
              be_bytes 2 (fst opt) @ be_bytes 2 (of_nat (length (snd opt)) :: 16 word)"
    using Read_at [OF bytes Cons.prems(2), of sizeof_Option] by (simp only: option_header)
  have lrd: "length (Read m (of_nat (length pre)) sizeof_Option) = sizeof_Option"
    unfolding rd by (simp add: wire_defs)
  have code: "GetCode (Read m (of_nat (length pre)) sizeof_Option) = fst opt"
    unfolding rd by (rule GetCode_header)
  have len: "GetOptLength (Read m (of_nat (length pre)) sizeof_Option) = of_nat (length (snd opt))"
    unfolding rd using GetOptLength_header [of "fst opt" _ "[]"] by simp
  have nxt: "(of_nat (length pre) :: 16 word) + of_nat sizeof_Option + of_nat (length (snd opt))
              = of_nat (length (pre @ encode_option opt))"
    by (simp add: length_encode_option)
  have ih: "FindOption_loop m (of_nat (length (pre @ encode_option opt))) aEnd code =
           Some (of_nat (scan_options opts (length (pre @ encode_option opt)) (unat aEnd) code))"
    using Cons.prems by (intro Cons.IH) (simp_all add: encode_options_def)
  have le: "(of_nat (length pre) :: 16 word) \<le> aEnd \<longleftrightarrow> length pre \<le> unat aEnd"
    using lp by (rule of_nat_le16)
  show ?case
    apply (subst FindOption_loop.simps)
    apply (simp only: le lrd code len nxt ih Let_def)
    apply (simp add: length_encode_option not_le add.assoc)
    done
qed

lemma length_encode_options_Cons:
  "length (encode_options (opt # opts)) = sizeof_Option + length (snd opt) + length (encode_options opts)"
  by (simp add: encode_options_def length_encode_option)

lemma scan_within:
  "pos + length (encode_options opts) \<le> e \<Longrightarrow>
   scan_options opts pos e code = (case option_offset opts pos code of None \<Rightarrow> 0 | Some p \<Rightarrow> p)"
proof (induction opts arbitrary: pos)
  case Nil
  then show ?case by simp
next
  case (Cons opt opts)
  from Cons.prems have "pos + sizeof_Option + length (snd opt) + length (encode_options opts) \<le> e"
    by (simp add: length_encode_options_Cons)
  from Cons.IH [OF this] Cons.prems show ?case by simp
qed

lemma option_offset_None: "map_of opts code = None \<Longrightarrow> option_offset opts pos code = None"
  by (induction opts arbitrary: pos) (auto split: if_splits)

lemma option_offset_Some:
  "map_of opts code = Some payload \<Longrightarrow>
   \<exists>before after. opts = before @ (code, payload) # after \<and>
      option_offset opts pos code = Some (pos + length (encode_options before))"
proof (induction opts arbitrary: pos)
  case Nil
  then show ?case by simp
next
  case (Cons opt opts)
  show ?case
  proof (cases "fst opt = code")
    case True
    with Cons.prems have "opt = (code, payload)" by (cases opt) simp
    then have "opt # opts = [] @ (code, payload) # opts \<and>
      option_offset (opt # opts) pos code = Some (pos + length (encode_options []))"
      by (simp add: encode_options_def)
    then show ?thesis by blast
  next
    case False
    with Cons.prems have "map_of opts code = Some payload" by (cases opt) (simp split: if_splits)
    from Cons.IH [OF this, of "pos + sizeof_Option + length (snd opt)"]
    obtain before after where b: "opts = before @ (code, payload) # after"
      "option_offset opts (pos + sizeof_Option + length (snd opt)) code =
         Some (pos + sizeof_Option + length (snd opt) + length (encode_options before))"
      by blast
    have "opt # opts = (opt # before) @ (code, payload) # after \<and>
      option_offset (opt # opts) pos code = Some (pos + length (encode_options (opt # before)))"
      using b False by (simp add: length_encode_options_Cons add.assoc)
    then show ?thesis by blast
  qed
qed

lemma options_at_bytes:
  assumes "options_at m opts"
  shows "mBytes m = take (unat (mOffset m)) (mBytes m) @ encode_options opts"
    and "length (take (unat (mOffset m)) (mBytes m)) = unat (mOffset m)"
    and "(of_nat (length (take (unat (mOffset m)) (mBytes m))) :: 16 word) = mOffset m"
    and "mOffset m + (GetLength m - mOffset m) = GetLength m"
    and "unat (GetLength m) = length (mBytes m)"
    and "unat (mOffset m) + length (encode_options opts) = length (mBytes m)"
proof -
  have d: "drop (unat (mOffset m)) (mBytes m) = encode_options opts"
    and le: "unat (mOffset m) \<le> length (mBytes m)" and l: "length (mBytes m) < 65536"
    using assms by (simp_all add: options_at_def)
  from append_take_drop_id [of "unat (mOffset m)" "mBytes m"] d
  show "mBytes m = take (unat (mOffset m)) (mBytes m) @ encode_options opts" by simp
  show t: "length (take (unat (mOffset m)) (mBytes m)) = unat (mOffset m)" using le by simp
  show "(of_nat (length (take (unat (mOffset m)) (mBytes m))) :: 16 word) = mOffset m"
    unfolding t by simp
  show "mOffset m + (GetLength m - mOffset m) = GetLength m" by simp
  show "unat (GetLength m) = length (mBytes m)" using l by (simp add: GetLength_def unat_of_nat16)
  from d have "length (drop (unat (mOffset m)) (mBytes m)) = length (encode_options opts)" by simp
  with le show "unat (mOffset m) + length (encode_options opts) = length (mBytes m)" by simp
qed

lemma FindOption_top:
  assumes o: "options_at m opts"
  shows "FindOption m (mOffset m) (GetLength m - mOffset m) code =
           Some (case option_offset opts (unat (mOffset m)) code of None \<Rightarrow> 0 | Some p \<Rightarrow> of_nat p)"
proof -
  note b = options_at_bytes [OF o]
  have l: "length (mBytes m) < 65536" using o by (simp add: options_at_def)
  have w: "(of_nat (unat (mOffset m)) :: 16 word) = mOffset m" by simp
  from FindOption_loop_options [OF b(1) l, of "GetLength m" code]
  have "FindOption_loop m (mOffset m) (GetLength m) code =
          Some (of_nat (scan_options opts (unat (mOffset m)) (length (mBytes m)) code))"
    unfolding b(2) b(5) w .
  moreover have "scan_options opts (unat (mOffset m)) (length (mBytes m)) code =
          (case option_offset opts (unat (mOffset m)) code of None \<Rightarrow> 0 | Some p \<Rightarrow> p)"
    using b(6) by (intro scan_within) simp
  ultimately show ?thesis
    by (simp add: FindOption_def b(4) split: option.splits)
qed

lemma FindOption_absent:
  assumes "options_at m opts" "map_of opts code = None"
  shows "FindOption m (mOffset m) (GetLength m - mOffset m) code = Some 0"
  using FindOption_top [OF assms(1), of code] option_offset_None [OF assms(2)] by simp

lemma FindOption_present:
  assumes o: "options_at m opts" and f: "map_of opts code = Some payload"
  obtains p rest where
    "FindOption m (mOffset m) (GetLength m - mOffset m) code = Some (of_nat p)"
    "(0 :: 16 word) < of_nat p"
    "p < 65536"
    "\<And>n. Read m (of_nat p) n = take n (encode_option (code, payload) @ rest)"
    "p + length (encode_option (code, payload) @ rest) = length (mBytes m)"
    "\<exists>before after. opts = before @ (code, payload) # after \<and> rest = encode_options after
        \<and> p = unat (mOffset m) + length (encode_options before)"
proof -
  note b = options_at_bytes [OF o]
  have l: "length (mBytes m) < 65536" and z: "0 < unat (mOffset m)"
    using o by (simp_all add: options_at_def)
  from option_offset_Some [OF f, of "unat (mOffset m)"]
  obtain before after where d: "opts = before @ (code, payload) # after"
    and oo: "option_offset opts (unat (mOffset m)) code =
               Some (unat (mOffset m) + length (encode_options before))" by blast
  let ?p = "unat (mOffset m) + length (encode_options before)"
  let ?pre = "take (unat (mOffset m)) (mBytes m) @ encode_options before"
  let ?rest = "encode_options after"
  have enc: "encode_options opts = encode_options before @ encode_option (code, payload) @ ?rest"
    by (simp add: d encode_options_def)
  have bytes: "mBytes m = ?pre @ (encode_option (code, payload) @ ?rest)"
    using b(1) enc by simp
  have lp: "length ?pre = ?p" using b(2) by simp
  have tot: "?p + length (encode_option (code, payload) @ ?rest) = length (mBytes m)"
    using b(6) enc by simp
  then have p: "?p < 65536" using l by simp
  have 1: "FindOption m (mOffset m) (GetLength m - mOffset m) code = Some (of_nat ?p)"
    using FindOption_top [OF o, of code] oo by simp
  have "unat (of_nat ?p :: 16 word) = ?p" using p by (rule unat_of_nat16)
  then have 2: "(0 :: 16 word) < of_nat ?p" using z by (simp add: word_less_nat_alt)
  have 4: "Read m (of_nat ?p) n = take n (encode_option (code, payload) @ ?rest)" for n
    using Read_at [OF bytes l, of n] by (simp only: lp)
  from 1 2 p 4 tot d show ?thesis by (intro that [of ?p ?rest]) blast+
qed

lemma be_bytes_be_word_16:
  assumes "length bs = 2"
  shows "be_bytes 2 (be_word bs :: 16 word) = bs"
proof -
  from assms obtain a b where bs: "bs = [a, b]"
    by (cases bs; cases "tl bs") auto
  have "be_bytes 2 (be_word [a, b] :: 16 word) = [a, b]"
    unfolding be_word_def be_bytes_def
    apply (simp add: numeral_2_eq_2)
    apply (intro conjI bit_word_eqI)
     apply (auto simp: bit_simps dest: bit_imp_le_length)
    done
  with bs show ?thesis by simp
qed

lemma be_word_eq_iff_16:
  "length bs = 2 \<Longrightarrow> (be_word bs :: 16 word) = w \<longleftrightarrow> bs = be_bytes 2 w"
  using be_bytes_be_word_16 [of bs] be_word_be_bytes_16 [of w] by auto

lemma opt_fields:
  "4 \<le> n \<Longrightarrow> GetOptLength (take n (encode_option (code, payload) @ rest)) = of_nat (length payload)"
  "2 \<le> n \<Longrightarrow> GetCode (take n (encode_option (code, payload) @ rest)) = code"
  "drop 4 (encode_option (code, payload) @ rest) = payload @ rest"
  by (simp_all add: GetOptLength_def GetCode_def encode_option_def be_word_be_bytes_16 min_def)

lemma of_nat_len_eq16:
  "n < 65536 \<Longrightarrow> k < 65536 \<Longrightarrow> (of_nat n :: 16 word) = of_nat k \<longleftrightarrow> n = k"
  by (metis unat_of_nat16)

lemma of_nat_len_le16:
  "n < 65536 \<Longrightarrow> k < 65536 \<Longrightarrow> (of_nat k :: 16 word) \<le> of_nat n \<longleftrightarrow> k \<le> n"
  by (simp add: word_le_nat_alt unat_of_nat16)

lemma field_of_option:
  assumes "length h = 4" "4 \<le> b" "b + a \<le> n" "b - 4 + a \<le> length p"
  shows "take a (drop b (take n (h @ p @ r))) = take a (drop (b - 4) p)"
proof -
  have "drop b (take n (h @ p @ r)) = take (n - b) (drop b (h @ p @ r))"
    by (simp only: drop_take)
  also have "drop b (h @ p @ r) = drop (b - 4) (p @ r)"
    using assms(1,2) by simp
  also have "drop (b - 4) (p @ r) = drop (b - 4) p @ r"
    using assms(4) by simp
  finally have "take a (drop b (take n (h @ p @ r))) = take a (take (n - b) (drop (b - 4) p @ r))"
    by simp
  also have "\<dots> = take a (drop (b - 4) p @ r)"
  proof -
    have "a \<le> n - b" using assms(3) by linarith
    then show ?thesis by (simp only: take_take min_absorb1)
  qed
  also have "\<dots> = take a (drop (b - 4) p)"
    using assms(4) by simp
  finally show ?thesis .
qed

lemma length_option_header [simp]: "length (option_header code payload) = 4"
  by (simp add: option_header_def)

lemma encode_option_header:
  "encode_option (code, payload) @ rest = option_header code payload @ payload @ rest"
  by (simp add: encode_option_def option_header_def)

lemma payload_field:
  assumes "4 \<le> b" "b + a \<le> n" "b - 4 + a \<le> length payload"
  shows "take a (drop b (take n (encode_option (code, payload) @ rest))) = take a (drop (b - 4) payload)"
  unfolding encode_option_header using assms by (intro field_of_option) simp_all

lemma length_read_option:
  "n \<le> 4 + length payload + length rest \<Longrightarrow>
   length (take n (encode_option (code, payload) @ rest)) = n"
  by (simp add: length_encode_option wire_defs)

lemma ProcessStatusCode_iff:
  assumes R: "\<And>n. Read m q n = take n (encode_option (code, payload) @ rest)"
    and lp: "length payload < 65536"
  shows "ProcessStatusCode m q = OT_ERROR_NONE \<longleftrightarrow> status_success payload"
proof -
  define opt where "opt = Read m q sizeof_StatusCode"
  have o: "opt = take 6 (encode_option (code, payload) @ rest)"
    unfolding opt_def R by (simp only: wire_defs)
  have len: "GetOptLength opt = of_nat (length payload)" unfolding o by (rule opt_fields) simp
  have le: "(2 :: 16 word) \<le> of_nat (length payload) \<longleftrightarrow> 2 \<le> length payload"
    using of_nat_len_le16 [OF lp, of 2] by simp
  have val: "take 2 (drop 4 opt) = take 2 payload" if "2 \<le> length payload"
    unfolding o using payload_field [of 4 2 6 payload code rest] that by simp
  have l6: "length opt = 6" if "2 \<le> length payload"
    unfolding o using that by (intro length_read_option) simp
  have def: "ProcessStatusCode m q = OT_ERROR_NONE \<longleftrightarrow>
      6 \<le> length opt \<and> 2 \<le> GetOptLength opt \<and>
      (be_word (take 2 (drop 4 opt)) :: 16 word) = kStatusSuccess"
    unfolding ProcessStatusCode_def Let_def opt_def [symmetric] by (simp add: wire_defs)
  show ?thesis
  proof (cases "2 \<le> length payload")
    case True
    with def len le val [OF True] l6 [OF True] show ?thesis
      by (simp add: status_success_def)
  next
    case False
    with def len le show ?thesis by (simp add: status_success_def)
  qed
qed

lemma ProcessClientIdentifier_iff:
  assumes R: "\<And>n. Read m q n = take n (encode_option (code, payload) @ rest)"
    and lp: "length payload < 65536"
  shows "ProcessClientIdentifier env m q = OT_ERROR_NONE \<longleftrightarrow>
           payload = client_duid (envEui64 env) \<and> length (envEui64 env) = 8"
proof -
  define opt where "opt = Read m q sizeof_ClientIdentifier"
  have o: "opt = take 16 (encode_option (code, payload) @ rest)"
    unfolding opt_def R by (simp only: wire_defs)
  have len: "GetOptLength opt = of_nat (length payload)" unfolding o by (rule opt_fields) simp
  have eq: "(of_nat (length payload) :: 16 word) = 12 \<longleftrightarrow> length payload = 12"
    using of_nat_len_eq16 [OF lp, of 12] by simp
  have def: "ProcessClientIdentifier env m q = OT_ERROR_NONE \<longleftrightarrow>
      length opt = 16 \<and> GetOptLength opt = 12 \<and>
      (be_word (take 2 (drop 4 opt)) :: 16 word) = kDuidLinkLayerAddress \<and>
      (be_word (take 2 (drop 6 opt)) :: 16 word) = kHardwareTypeEui64 \<and>
      take 8 (drop 8 opt) = envEui64 env"
    unfolding ProcessClientIdentifier_def Let_def opt_def [symmetric] by (simp add: wire_defs)
  show ?thesis
  proof (cases "length payload = 12")
    case False
    moreover have "length (client_duid (envEui64 env)) = 12" if "length (envEui64 env) = 8"
      using that by (simp add: client_duid_def)
    ultimately show ?thesis using def len eq by auto
  next
    case True
    have p1: "take 2 (drop 4 opt) = take 2 payload"
      unfolding o using payload_field [of 4 2 16 payload code rest] True by simp
    have p2: "take 2 (drop 6 opt) = take 2 (drop 2 payload)"
      unfolding o using payload_field [of 6 2 16 payload code rest] True by simp
    have p3: "take 8 (drop 8 opt) = drop 4 payload"
      unfolding o using payload_field [of 8 8 16 payload code rest] True by simp
    have l16: "length opt = 16" unfolding o using True by (intro length_read_option) simp
    have split: "payload = take 2 payload @ take 2 (drop 2 payload) @ drop 4 payload"
    proof -
      have "take 2 (drop 2 payload) @ drop 2 (drop 2 payload) = drop 2 payload"
        by (rule append_take_drop_id)
      moreover have "drop 2 (drop 2 payload) = drop 4 payload" by simp
      ultimately have "drop 2 payload = take 2 (drop 2 payload) @ drop 4 payload" by simp
      with append_take_drop_id [of 2 payload] show ?thesis by metis
    qed
    have i1: "(be_word (take 2 payload) :: 16 word) = kDuidLinkLayerAddress \<longleftrightarrow>
                take 2 payload = be_bytes 2 kDuidLinkLayerAddress"
      using True by (intro be_word_eq_iff_16) simp
    have i2: "(be_word (take 2 (drop 2 payload)) :: 16 word) = kHardwareTypeEui64 \<longleftrightarrow>
                take 2 (drop 2 payload) = be_bytes 2 kHardwareTypeEui64"
      using True by (intro be_word_eq_iff_16) simp
    have d: "ProcessClientIdentifier env m q = OT_ERROR_NONE \<longleftrightarrow>
      take 2 payload = be_bytes 2 kDuidLinkLayerAddress \<and>
      take 2 (drop 2 payload) = be_bytes 2 kHardwareTypeEui64 \<and>
      drop 4 payload = envEui64 env"
      unfolding def p1 p2 p3 l16 len eq i1 i2 using True by simp
    have l8: "length (drop 4 payload) = 8" using True by simp
    show ?thesis
    proof
      assume "ProcessClientIdentifier env m q = OT_ERROR_NONE"
      with d have e: "take 2 payload = be_bytes 2 kDuidLinkLayerAddress"
        "take 2 (drop 2 payload) = be_bytes 2 kHardwareTypeEui64"
        "drop 4 payload = envEui64 env" by simp_all
      from split have "payload = client_duid (envEui64 env)"
        unfolding client_duid_def e .
      moreover from l8 e(3) have "length (envEui64 env) = 8" by simp
      ultimately show "payload = client_duid (envEui64 env) \<and> length (envEui64 env) = 8" ..
    next
      assume h: "payload = client_duid (envEui64 env) \<and> length (envEui64 env) = 8"
      then have "take 2 payload = be_bytes 2 kDuidLinkLayerAddress"
        "take 2 (drop 2 payload) = be_bytes 2 kHardwareTypeEui64"
        "drop 4 payload = envEui64 env"
        by (simp_all add: client_duid_def)
      with d show "ProcessClientIdentifier env m q = OT_ERROR_NONE" by simp
    qed
  qed
qed

lemma ProcessServerIdentifier_ok:
  assumes R: "\<And>n. Read m q n = take n (encode_option (code, payload) @ rest)"
    and lp: "length payload < 65536"
    and ok: "server_duid_ok payload"
  shows "ProcessServerIdentifier m q = OT_ERROR_NONE"
proof -
  define opt where "opt = Read m q sizeof_ServerIdentifier"
  have o: "opt = take 16 (encode_option (code, payload) @ rest)"
    unfolding opt_def R by (simp only: wire_defs)
  have len: "GetOptLength opt = of_nat (length payload)" unfolding o by (rule opt_fields) simp
  have four: "4 \<le> length payload" using ok by (auto simp: server_duid_ok_def)
  have p1: "take 2 (drop 4 opt) = take 2 payload"
    unfolding o using payload_field [of 4 2 16 payload code rest] four by simp
  have p2: "take 2 (drop 6 opt) = take 2 (drop 2 payload)"
    unfolding o using payload_field [of 6 2 16 payload code rest] four by simp
  have q: "take 2 payload = take 2 (take 4 payload)" "take 2 (drop 2 payload) = drop 2 (take 4 payload)"
    by (simp_all add: drop_take)
  have def: "ProcessServerIdentifier m q = OT_ERROR_NONE \<longleftrightarrow>
      length opt \<noteq> 16 \<or>
      ((be_word (take 2 (drop 4 opt)) :: 16 word) = kDuidLinkLayerAddressPlusTime \<and>
       (be_word (take 2 (drop 6 opt)) :: 16 word) = kHardwareTypeEthernet) \<or>
      (GetOptLength opt = 12 \<and>
       (be_word (take 2 (drop 4 opt)) :: 16 word) = kDuidLinkLayerAddress \<and>
       (be_word (take 2 (drop 6 opt)) :: 16 word) = kHardwareTypeEui64)"
    unfolding ProcessServerIdentifier_def Let_def opt_def [symmetric] by (simp add: wire_defs)
  from ok show ?thesis unfolding server_duid_ok_def
  proof
    assume "4 \<le> length payload \<and>
      take 4 payload = be_bytes 2 kDuidLinkLayerAddressPlusTime @ be_bytes 2 kHardwareTypeEthernet"
    then show ?thesis unfolding def p1 p2 q by (simp add: be_word_be_bytes_16)
  next
    assume "length payload = 12 \<and>
      take 4 payload = be_bytes 2 kDuidLinkLayerAddress @ be_bytes 2 kHardwareTypeEui64"
    then show ?thesis unfolding def p1 p2 q len by (simp add: be_word_be_bytes_16)
  qed
qed

lemma holds_options_moved:
  assumes "holds_options m opts"
  shows "options_at (MoveOffset m sizeof_Header) opts"
proof -
  from assms have l: "length (mBytes m) < 65536"
    and le: "unat (mOffset m) + 4 \<le> length (mBytes m)"
    and d: "drop (unat (mOffset m) + 4) (mBytes m) = encode_options opts"
    by (simp_all add: holds_options_def wire_defs)
  have u: "unat (mOffset m + of_nat 4) = unat (mOffset m) + 4"
    using le l by (rule no_wrap16)
  show ?thesis
    unfolding options_at_def MoveOffset_def using l le d u by (simp add: wire_defs)
qed

lemma option_payload_short:
  assumes "p + length (encode_option (code, payload) @ rest) = length (mBytes m)"
    "length (mBytes m) < 65536"
  shows "length payload < 65536"
proof -
  have "length payload \<le> length (encode_option (code, payload) @ rest)"
    by (simp add: length_encode_option)
  with assms show ?thesis by linarith
qed

lemma FindOption_returns:
  assumes "options_at m opts"
  obtains v where "FindOption m (mOffset m) (GetLength m - mOffset m) code = Some v"
  using FindOption_top [OF assms, of code] by blast

lemma ProcessReply_bad_client:
  assumes o: "options_at m opts"
    and bad: "map_of opts kOptionClientIdentifier \<noteq> Some (client_duid (envEui64 env))"
  shows "ProcessReply env c m = Some c"
proof -
  have l: "length (mBytes m) < 65536" using o by (simp add: options_at_def)
  obtain v1 where 1: "FindOption m (mOffset m) (GetLength m - mOffset m) kOptionStatusCode = Some v1"
    by (rule FindOption_returns [OF o])
  obtain v2 where 2: "FindOption m (mOffset m) (GetLength m - mOffset m) kOptionServerIdentifier = Some v2"
    by (rule FindOption_returns [OF o])
  have "\<exists>v3. FindOption m (mOffset m) (GetLength m - mOffset m) kOptionClientIdentifier = Some v3 \<and>
          (\<not> 0 < v3 \<or> ProcessClientIdentifier env m v3 \<noteq> OT_ERROR_NONE)"
  proof (cases "map_of opts kOptionClientIdentifier")
    case None
    from FindOption_absent [OF o None] show ?thesis by simp
  next
    case (Some payload)
    show ?thesis
    proof (rule FindOption_present [OF o Some])
      fix p rest
      assume a: "FindOption m (mOffset m) (GetLength m - mOffset m) kOptionClientIdentifier = Some (of_nat p)"
        and b: "\<And>n. Read m (of_nat p) n = take n (encode_option (kOptionClientIdentifier, payload) @ rest)"
        and c: "p + length (encode_option (kOptionClientIdentifier, payload) @ rest) = length (mBytes m)"
      have "ProcessClientIdentifier env m (of_nat p) \<noteq> OT_ERROR_NONE"
        using ProcessClientIdentifier_iff [OF b option_payload_short [OF c l], of env] bad Some by simp
      with a show ?thesis by simp
    qed
  qed
  then obtain v3 where
    3: "FindOption m (mOffset m) (GetLength m - mOffset m) kOptionClientIdentifier = Some v3"
    and b3: "\<not> 0 < v3 \<or> ProcessClientIdentifier env m v3 \<noteq> OT_ERROR_NONE" by blast
  show ?thesis
    unfolding ProcessReply_def Let_def 1 2 3 bind.bind_lunit using b3 by auto
qed

section \<open>Accepting a Reply\<close>

lemma scan_past_end: "e < pos \<Longrightarrow> scan_options opts pos e code = 0"
  by (cases opts) simp_all

lemma uint_of_nat16: "n < 65536 \<Longrightarrow> uint (of_nat n :: 16 word) = int n"
  using uint_nat [of "of_nat n :: 16 word"] by (simp add: unat_of_nat16)

lemma encode_options_Cons: "encode_options (opt # opts) = encode_option opt @ encode_options opts"
  by (simp add: encode_options_def)

lemma assign_address_at:
  assumes "i < length ias"
    and "mStatus (ias ! i) \<noteq> kIaStatusInvalid" "mValidLifetime (ias ! i) = 0"
    and "unat (mPrefixLength (mNetifAddress (ias ! i))) \<le> PrefixMatch (mAddress (mNetifAddress (ias ! i))) a"
    and "\<forall>j<i. mStatus (ias ! j) = kIaStatusInvalid \<or> mValidLifetime (ias ! j) \<noteq> 0 \<or>
            PrefixMatch (mAddress (mNetifAddress (ias ! j))) a < unat (mPrefixLength (mNetifAddress (ias ! j)))"
  shows "assign_address a p v ias =
           (ias[i := accept_address a p v (ias ! i)],
            [AddUnicastAddress (mNetifAddress (accept_address a p v (ias ! i)))])"
  using assms
proof (induction ias arbitrary: i)
  case Nil
  then show ?case by simp
next
  case (Cons ia ias)
  show ?case
  proof (cases i)
    case 0
    with Cons.prems show ?thesis by simp
  next
    case (Suc k)
    have skip: "mStatus ia = kIaStatusInvalid \<or> mValidLifetime ia \<noteq> 0 \<or>
            PrefixMatch (mAddress (mNetifAddress ia)) a < unat (mPrefixLength (mNetifAddress ia))"
      using Cons.prems(5) Suc by auto
    have "\<forall>j<k. mStatus (ias ! j) = kIaStatusInvalid \<or> mValidLifetime (ias ! j) \<noteq> 0 \<or>
            PrefixMatch (mAddress (mNetifAddress (ias ! j))) a < unat (mPrefixLength (mNetifAddress (ias ! j)))"
      using Cons.prems(5) Suc by auto
    with Cons.prems Suc have "assign_address a p v ias =
           (ias[k := accept_address a p v (ias ! k)],
            [AddUnicastAddress (mNetifAddress (accept_address a p v (ias ! k)))])"
      by (intro Cons.IH) simp_all
    with skip Suc show ?thesis by (auto simp: not_le)
  qed
qed

lemma HandleTrickleTimer_calls [simp]:
  "mNetifCalls (snd (HandleTrickleTimer env c)) = mNetifCalls c"
proof (cases "mIdentityAssociationCurrent c")
  case None
  then show ?thesis by (simp add: HandleTrickleTimer_def)
next
  case (Some cur)
  show ?thesis
  proof (cases "mStatus (mIdentityAssociations c ! cur)")
    case kIaStatusInvalid
    with Some show ?thesis by (simp add: HandleTrickleTimer_def)
  next
    case kIaStatusSoliciting
    with Some show ?thesis by (simp add: HandleTrickleTimer_def)
  next
    case kIaStatusSolicit
    with Some show ?thesis by (simp add: HandleTrickleTimer_def Let_def)
  next
    case kIaStatusSolicitReplied
    obtain r c1 where pn: "ProcessNextIdentityAssociation env (c\<lparr>mIdentityAssociationCurrent := None\<rparr>) = (r, c1)"
      by (cases "ProcessNextIdentityAssociation env (c\<lparr>mIdentityAssociationCurrent := None\<rparr>)")
    have "mNetifCalls c1 = mNetifCalls c"
      using ProcessNext_pool(2) [of env "c\<lparr>mIdentityAssociationCurrent := None\<rparr>"] pn by simp
    with Some kIaStatusSolicitReplied pn show ?thesis
      by (cases r) (simp_all add: HandleTrickleTimer_def)
  qed
qed

lemma HandleTrickleTimer_replied:
  assumes "mStatus (mIdentityAssociations c ! i) = kIaStatusSolicitReplied"
  shows "mIdentityAssociations (snd (HandleTrickleTimer env c)) ! i = mIdentityAssociations c ! i"
proof (cases "mIdentityAssociationCurrent c")
  case None
  then show ?thesis by (simp add: HandleTrickleTimer_def)
next
  case (Some cur)
  show ?thesis
  proof (cases "mStatus (mIdentityAssociations c ! cur)")
    case kIaStatusInvalid
    with Some show ?thesis by (simp add: HandleTrickleTimer_def)
  next
    case kIaStatusSoliciting
    with Some show ?thesis by (simp add: HandleTrickleTimer_def)
  next
    case kIaStatusSolicit
    with assms have "cur \<noteq> i" by auto
    with Some kIaStatusSolicit show ?thesis by (simp add: HandleTrickleTimer_def Let_def)
  next
    case kIaStatusSolicitReplied
    obtain r c1 where pn: "ProcessNextIdentityAssociation env (c\<lparr>mIdentityAssociationCurrent := None\<rparr>) = (r, c1)"
      by (cases "ProcessNextIdentityAssociation env (c\<lparr>mIdentityAssociationCurrent := None\<rparr>)")
    have "mIdentityAssociations c1 = mIdentityAssociations c"
      using ProcessNext_pool(1) [of env "c\<lparr>mIdentityAssociationCurrent := None\<rparr>"] pn by simp
    with Some kIaStatusSolicitReplied pn show ?thesis
      by (cases r) (simp_all add: HandleTrickleTimer_def)
  qed
qed

lemma ProcessIaAddress_read:
  assumes R: "Read m q sizeof_IaAddress = take 28 (encode_option (kOptionIaAddress, ab @ pb @ vb) @ rest)"
    and lens: "length ab = 16" "length pb = 4" "length vb = 4"
  shows "ProcessIaAddress c m q =
           (OT_ERROR_NONE,
            c\<lparr>mIdentityAssociations :=
                  fst (assign_address (be_word ab) (be_word pb) (be_word vb) (mIdentityAssociations c)),
               mNetifCalls := mNetifCalls c @
                  snd (assign_address (be_word ab) (be_word pb) (be_word vb) (mIdentityAssociations c))\<rparr>)"
proof -
  define opt where "opt = Read m q sizeof_IaAddress"
  have o: "opt = take 28 (encode_option (kOptionIaAddress, ab @ pb @ vb) @ rest)"
    unfolding opt_def by (rule R)
  have lp: "length (ab @ pb @ vb) = 24" using lens by simp
  have len: "GetOptLength opt = of_nat (length (ab @ pb @ vb))" unfolding o by (rule opt_fields) simp
  have l28: "length opt = 28" unfolding o using lp by (intro length_read_option) simp
  have a: "take 16 (drop 4 opt) = ab"
    unfolding o using payload_field [of 4 16 28 "ab @ pb @ vb" kOptionIaAddress rest] lens by simp
  have p: "take 4 (drop 20 opt) = pb"
    unfolding o using payload_field [of 20 4 28 "ab @ pb @ vb" kOptionIaAddress rest] lens by simp
  have v: "take 4 (drop 24 opt) = vb"
    unfolding o using payload_field [of 24 4 28 "ab @ pb @ vb" kOptionIaAddress rest] lens by simp
  have ok: "length opt = sizeof_IaAddress \<and> GetOptLength opt = of_nat (sizeof_IaAddress - sizeof_Option)"
    unfolding len lp l28 by (simp add: wire_defs)
  show ?thesis
    unfolding ProcessIaAddress_def Let_def opt_def [symmetric] a p v
    using ok by (simp add: case_prod_beta)
qed

lemma ProcessIaNa_one_address:
  assumes bytes: "mBytes m = pre @
        encode_option (kOptionIaNa, fixed @ encode_option (kOptionIaAddress, ab @ pb @ vb)) @
        encode_options after"
    and l: "length (mBytes m) < 65536"
    and lens: "length fixed = 12" "length ab = 16" "length pb = 4" "length vb = 4"
    and st: "\<forall>opt \<in> set after. fst opt = kOptionStatusCode \<longrightarrow> status_success (snd opt)"
  shows "ProcessIaNa c m (of_nat (length pre)) =
           Some (OT_ERROR_NONE,
            c\<lparr>mIdentityAssociations :=
                  fst (assign_address (be_word ab) (be_word pb) (be_word vb) (mIdentityAssociations c)),
               mNetifCalls := mNetifCalls c @
                  snd (assign_address (be_word ab) (be_word pb) (be_word vb) (mIdentityAssociations c))\<rparr>)"
proof -
  define P where "P = length pre"
  define payload where "payload = fixed @ encode_option (kOptionIaAddress, ab @ pb @ vb)"
  define rest where "rest = encode_options after"
  define addr where "addr = (kOptionIaAddress, ab @ pb @ vb)"
  define pre' where "pre' = pre @ option_header kOptionIaNa payload @ fixed"
  have lpay: "length payload = 40"
    unfolding payload_def using lens by (simp add: length_encode_option wire_defs)
  have laddr: "length (snd addr) = 24" unfolding addr_def using lens by simp
  have b1: "mBytes m = pre @ (encode_option (kOptionIaNa, payload) @ rest)"
    using bytes unfolding payload_def rest_def by simp
  have h: "encode_option (kOptionIaNa, payload) = option_header kOptionIaNa payload @ payload"
    using encode_option_header [of kOptionIaNa payload "[]"] by simp
  have b2: "mBytes m = pre' @ encode_options (addr # after)"
    unfolding pre'_def encode_options_Cons addr_def b1 h rest_def
    by (simp add: payload_def)
  have lpre': "length pre' = P + 16" unfolding pre'_def P_def using lens by simp
  have total: "P + 44 + length rest = length (mBytes m)"
    unfolding b1 P_def by (simp add: length_encode_option lpay wire_defs)
  have P16: "P + 16 < 65536" and P44: "P + 44 < 65536" using total l by simp_all
  \<comment> \<open>the read of the container\<close>
  define opt where "opt = Read m (of_nat (length pre)) sizeof_IaNa"
  have o: "opt = take 16 (encode_option (kOptionIaNa, payload) @ rest)"
    unfolding opt_def using Read_at [OF b1 l, of sizeof_IaNa] by (simp only: wire_defs)
  have lo: "length opt = sizeof_IaNa"
    unfolding o using lpay by (simp only: wire_defs) (intro length_read_option, simp)
  have len: "GetOptLength opt = 40"
    unfolding o using opt_fields(1) [of 16 kOptionIaNa payload rest] lpay by simp
  have win: "IaNa_window (GetOptLength opt) = 28"
    unfolding len by (simp add: IaNa_window_def wire_defs)
  have off1: "(of_nat (length pre) :: 16 word) + of_nat sizeof_IaNa = of_nat (P + 16)"
    unfolding P_def by (simp add: wire_defs)
  have gl: "uint (GetLength m) = int (length (mBytes m))"
    unfolding GetLength_def using l by (rule uint_of_nat16)
  have chk: "uint (28 :: 16 word) \<le> uint (GetLength m) - uint (of_nat (P + 16) :: 16 word)"
    unfolding gl uint_of_nat16 [OF P16] using total by simp
  \<comment> \<open>the scans of the window\<close>
  have e: "(of_nat (P + 16) :: 16 word) + 28 = of_nat (P + 44)" by simp
  have ue: "unat (of_nat (P + 44) :: 16 word) = P + 44" using P44 by (rule unat_of_nat16)
  have scan: "FindOption m (of_nat (P + 16)) 28 code =
                Some (of_nat (scan_options (addr # after) (P + 16) (P + 44) code))" for code
    unfolding FindOption_def e
    using FindOption_loop_options [OF b2 l, of "of_nat (P + 44)" code]
    unfolding lpre' ue .
  have s_addr: "scan_options (addr # after) (P + 16) (P + 44) kOptionIaAddress = P + 16"
    by (simp add: addr_def)
  have s_stat: "scan_options (addr # after) (P + 16) (P + 44) kOptionStatusCode =
          (case after of [] \<Rightarrow> 0
           | opt # _ \<Rightarrow> if fst opt = kOptionStatusCode then P + 44 else 0)"
    using laddr by (cases after) (simp_all add: addr_def scan_past_end wire_defs)
  have stat_ok: "\<not> (0 < (of_nat (scan_options (addr # after) (P + 16) (P + 44) kOptionStatusCode) :: 16 word) \<and>
        ProcessStatusCode m (of_nat (scan_options (addr # after) (P + 16) (P + 44) kOptionStatusCode))
          \<noteq> OT_ERROR_NONE)"
  proof (cases after)
    case Nil
    then show ?thesis unfolding s_stat by simp
  next
    case (Cons so after')
    show ?thesis
    proof (cases "fst so = kOptionStatusCode")
      case False
      with Cons show ?thesis unfolding s_stat by simp
    next
      case True
      obtain sp where so: "so = (kOptionStatusCode, sp)" using True by (cases so) simp
      have ok: "status_success sp" using st Cons so by simp
      have b3: "mBytes m = (pre' @ encode_option addr) @ (encode_option (kOptionStatusCode, sp) @ encode_options after')"
        using b2 Cons so by (simp add: encode_options_Cons)
      have lp3: "length (pre' @ encode_option addr) = P + 44"
        using lpre' laddr by (simp add: length_encode_option wire_defs)
      have R: "\<And>n. Read m (of_nat (P + 44)) n = take n (encode_option (kOptionStatusCode, sp) @ encode_options after')"
        using Read_at [OF b3 l] unfolding lp3 .
      have "length sp \<le> length (mBytes m)"
        unfolding b3 by (simp add: length_encode_option)
      with l have "length sp < 65536" by simp
      from ProcessStatusCode_iff [OF R this] ok
      have "ProcessStatusCode m (of_nat (P + 44)) = OT_ERROR_NONE" by simp
      with Cons True show ?thesis unfolding s_stat by simp
    qed
  qed
  \<comment> \<open>the address option\<close>
  have b4: "mBytes m = pre' @ (encode_option (kOptionIaAddress, ab @ pb @ vb) @ rest)"
    using b2 unfolding addr_def rest_def by (simp add: encode_options_Cons)
  have RA: "Read m (of_nat (P + 16)) sizeof_IaAddress =
              take 28 (encode_option (kOptionIaAddress, ab @ pb @ vb) @ rest)"
    using Read_at [OF b4 l, of sizeof_IaAddress] unfolding lpre' by (simp only: wire_defs)
  note pia = ProcessIaAddress_read [OF RA lens(2,3,4), of c]
  define c1 where "c1 = c\<lparr>mIdentityAssociations :=
                  fst (assign_address (be_word ab) (be_word pb) (be_word vb) (mIdentityAssociations c)),
               mNetifCalls := mNetifCalls c @
                  snd (assign_address (be_word ab) (be_word pb) (be_word vb) (mIdentityAssociations c))\<rparr>"
  define q :: "16 word" where "q = of_nat (P + 16)"
  have nz: "q \<noteq> 0"
    unfolding q_def using unat_of_nat16 [OF P16] by (metis add_is_0 unat_0 zero_neq_numeral)
  have fa: "FindOption m q 28 kOptionIaAddress = Some q"
    unfolding q_def scan s_addr ..
  have pq: "ProcessIaAddress c m q = (OT_ERROR_NONE, c1)"
    unfolding q_def c1_def by (rule pia)
  have z: "(28 :: 16 word) - ((q - q) + of_nat sizeof_IaAddress) = 0" by (simp add: wire_defs)
  have pos: "(0 :: 16 word) < 28" by simp
  have loop0: "ProcessIaNa_loop c1 m x 0 = Some (OT_ERROR_NONE, c1)" for x
    by (subst ProcessIaNa_loop.simps) simp
  have loop: "ProcessIaNa_loop c m q 28 = Some (OT_ERROR_NONE, c1)"
    apply (subst ProcessIaNa_loop.simps)
    apply (simp only: fa pq pos z loop0 nz bind.bind_lunit if_True if_False case_prod_conv simp_thms)
    done
  have fs: "FindOption m q 28 kOptionStatusCode =
      Some (of_nat (scan_options (addr # after) (P + 16) (P + 44) kOptionStatusCode))"
    unfolding q_def by (rule scan)
  have chk': "uint (28 :: 16 word) \<le> uint (GetLength m) - uint q"
    unfolding q_def by (rule chk)
  have off1': "(of_nat (length pre) :: 16 word) + of_nat sizeof_IaNa = q"
    unfolding q_def by (rule off1)
  show ?thesis
    unfolding ProcessIaNa_def Let_def opt_def [symmetric] win off1' c1_def [symmetric] fs
    using lo chk' stat_ok loop
    by (simp only: bind.bind_lunit if_False simp_thms not_not)
qed

lemma option_found_in_bytes:
  assumes o: "options_at m opts" and f: "map_of opts code = Some payload"
  obtains pre after where
    "FindOption m (mOffset m) (GetLength m - mOffset m) code = Some (of_nat (length pre))"
    "(0 :: 16 word) < of_nat (length pre)"
    "mBytes m = pre @ encode_option (code, payload) @ encode_options after"
    "set after \<subseteq> set opts"
proof (rule FindOption_present [OF o f])
  fix p rest
  assume 1: "FindOption m (mOffset m) (GetLength m - mOffset m) code = Some (of_nat p)"
    and 2: "(0 :: 16 word) < of_nat p"
    and 6: "\<exists>before after. opts = before @ (code, payload) # after \<and> rest = encode_options after
        \<and> p = unat (mOffset m) + length (encode_options before)"
  from 6 obtain before after where d: "opts = before @ (code, payload) # after"
    and p: "p = unat (mOffset m) + length (encode_options before)" by blast
  note b = options_at_bytes [OF o]
  let ?pre = "take (unat (mOffset m)) (mBytes m) @ encode_options before"
  have enc: "encode_options opts = encode_options before @ encode_option (code, payload) @ encode_options after"
    by (simp add: d encode_options_def)
  have bytes: "mBytes m = ?pre @ encode_option (code, payload) @ encode_options after"
    using b(1) enc by simp
  have lp: "length ?pre = p" using b(2) p by simp
  have sub: "set after \<subseteq> set opts" using d by auto
  show thesis
    using 1 2 bytes sub unfolding lp [symmetric] by (rule that)
qed

lemma option_accepted:
  assumes o: "options_at m opts" and f: "map_of opts code = Some payload"
    and ok: "\<And>q rest. (\<And>n. Read m q n = take n (encode_option (code, payload) @ rest)) \<Longrightarrow>
                length payload < 65536 \<Longrightarrow> check m q = OT_ERROR_NONE"
  shows "\<exists>v. FindOption m (mOffset m) (GetLength m - mOffset m) code = Some v \<and> 0 < v \<and>
             check m v = OT_ERROR_NONE"
proof (rule FindOption_present [OF o f])
  fix p rest
  assume 1: "FindOption m (mOffset m) (GetLength m - mOffset m) code = Some (of_nat p)"
    and 2: "(0 :: 16 word) < of_nat p"
    and 4: "\<And>n. Read m (of_nat p) n = take n (encode_option (code, payload) @ rest)"
    and 5: "p + length (encode_option (code, payload) @ rest) = length (mBytes m)"
  have l: "length (mBytes m) < 65536" using o by (simp add: options_at_def)
  have "check m (of_nat p) = OT_ERROR_NONE"
    using 4 option_payload_short [OF 5 l] by (rule ok)
  with 1 2 show ?thesis by blast
qed

lemma ProcessReply_accepts:
  assumes o: "options_at m opts"
    and status: "\<forall>opt \<in> set opts. fst opt = kOptionStatusCode \<longrightarrow> status_success (snd opt)"
    and server: "map_of opts kOptionServerIdentifier = Some sid" "server_duid_ok sid"
    and client: "map_of opts kOptionClientIdentifier = Some (client_duid (envEui64 env))"
                "length (envEui64 env) = 8"
    and rapid: "map_of opts kOptionRapidCommit = Some rc"
    and iana: "map_of opts kOptionIaNa = Some (fixed @ encode_option (kOptionIaAddress, ab @ pb @ vb))"
    and lens: "length fixed = 12" "length ab = 16" "length pb = 4" "length vb = 4"
  shows "ProcessReply env c m =
           Some (snd (HandleTrickleTimer env
             (c\<lparr>mIdentityAssociations :=
                  fst (assign_address (be_word ab) (be_word pb) (be_word vb) (mIdentityAssociations c)),
               mNetifCalls := mNetifCalls c @
                  snd (assign_address (be_word ab) (be_word pb) (be_word vb) (mIdentityAssociations c))\<rparr>)))"
proof -
  have l: "length (mBytes m) < 65536" using o by (simp add: options_at_def)
  have "\<exists>v1. FindOption m (mOffset m) (GetLength m - mOffset m) kOptionStatusCode = Some v1 \<and>
          \<not> (0 < v1 \<and> ProcessStatusCode m v1 \<noteq> OT_ERROR_NONE)"
  proof (cases "map_of opts kOptionStatusCode")
    case None
    from FindOption_absent [OF o None] show ?thesis by simp
  next
    case (Some sp)
    then have "(kOptionStatusCode, sp) \<in> set opts" by (rule map_of_SomeD)
    with status have ok: "status_success sp" by auto
    have "\<exists>v. FindOption m (mOffset m) (GetLength m - mOffset m) kOptionStatusCode = Some v \<and> 0 < v \<and>
             ProcessStatusCode m v = OT_ERROR_NONE"
      using o Some by (rule option_accepted) (simp add: ProcessStatusCode_iff ok)
    then show ?thesis by blast
  qed
  then obtain v1 where 1: "FindOption m (mOffset m) (GetLength m - mOffset m) kOptionStatusCode = Some v1"
    and s1: "\<not> (0 < v1 \<and> ProcessStatusCode m v1 \<noteq> OT_ERROR_NONE)" by blast
  have "\<exists>v. FindOption m (mOffset m) (GetLength m - mOffset m) kOptionServerIdentifier = Some v \<and> 0 < v \<and>
             ProcessServerIdentifier m v = OT_ERROR_NONE"
    using o server(1) by (rule option_accepted) (rule ProcessServerIdentifier_ok [OF _ _ server(2)])
  then obtain v2 where 2: "FindOption m (mOffset m) (GetLength m - mOffset m) kOptionServerIdentifier = Some v2"
    and s2: "0 < v2" "ProcessServerIdentifier m v2 = OT_ERROR_NONE" by blast
  have "\<exists>v. FindOption m (mOffset m) (GetLength m - mOffset m) kOptionClientIdentifier = Some v \<and> 0 < v \<and>
             ProcessClientIdentifier env m v = OT_ERROR_NONE"
    using o client(1) by (rule option_accepted) (simp add: ProcessClientIdentifier_iff client(2))
  then obtain v3 where 3: "FindOption m (mOffset m) (GetLength m - mOffset m) kOptionClientIdentifier = Some v3"
    and s3: "0 < v3" "ProcessClientIdentifier env m v3 = OT_ERROR_NONE" by blast
  have "\<exists>v. FindOption m (mOffset m) (GetLength m - mOffset m) kOptionRapidCommit = Some v \<and> 0 < v \<and>
             (\<lambda>_ _. OT_ERROR_NONE) m v = OT_ERROR_NONE"
    using o rapid by (rule option_accepted) simp
  then obtain v4 where 4: "FindOption m (mOffset m) (GetLength m - mOffset m) kOptionRapidCommit = Some v4"
    and s4: "0 < v4" by blast
  define c1 where "c1 = c\<lparr>mIdentityAssociations :=
                  fst (assign_address (be_word ab) (be_word pb) (be_word vb) (mIdentityAssociations c)),
               mNetifCalls := mNetifCalls c @
                  snd (assign_address (be_word ab) (be_word pb) (be_word vb) (mIdentityAssociations c))\<rparr>"
  have "\<exists>v5. FindOption m (mOffset m) (GetLength m - mOffset m) kOptionIaNa = Some v5 \<and> 0 < v5 \<and>
             ProcessIaNa c m v5 = Some (OT_ERROR_NONE, c1)"
  proof (rule option_found_in_bytes [OF o iana])
    fix pre after
    assume a: "FindOption m (mOffset m) (GetLength m - mOffset m) kOptionIaNa = Some (of_nat (length pre))"
      and b: "(0 :: 16 word) < of_nat (length pre)"
      and bytes: "mBytes m = pre @ encode_option (kOptionIaNa, fixed @ encode_option (kOptionIaAddress, ab @ pb @ vb)) @
                    encode_options after"
      and sub: "set after \<subseteq> set opts"
    have st: "\<forall>opt \<in> set after. fst opt = kOptionStatusCode \<longrightarrow> status_success (snd opt)"
      using status sub by blast
    have "ProcessIaNa c m (of_nat (length pre)) = Some (OT_ERROR_NONE, c1)"
      unfolding c1_def using bytes l lens st by (rule ProcessIaNa_one_address)
    with a b show ?thesis by blast
  qed
  then obtain v5 where 5: "FindOption m (mOffset m) (GetLength m - mOffset m) kOptionIaNa = Some v5"
    and s5: "0 < v5" "ProcessIaNa c m v5 = Some (OT_ERROR_NONE, c1)" by blast
  show ?thesis
    unfolding ProcessReply_def Let_def 1 2 3 4 5 c1_def [symmetric]
    using s1 s2 s3 s4 s5
    by (simp only: bind.bind_lunit if_True if_False case_prod_conv simp_thms not_not)
qed

lemma holds_options_reply:
  assumes "length txid = 3" "length (encode_options opts) < 65532"
  shows "holds_options (reply_message txid opts) opts"
  using assms by (simp add: holds_options_def reply_message_def wire_defs)

lemma length_encode_options:
  "length (encode_options opts) = sum_list (map (\<lambda>opt. 4 + length (snd opt)) opts)"
  by (simp add: encode_options_def length_concat comp_def length_encode_option wire_defs)

lemma length_client_duid: "length (client_duid eui) = 4 + length eui"
  by (simp add: client_duid_def)

lemma ex_options_short: "length (encode_options (ex_options a v)) = 80"
  by (simp add: length_encode_options ex_options_def length_client_duid wire_defs)

lemma holds_options_ex_reply: "holds_options (ex_reply a v) (ex_options a v)"
  unfolding ex_reply_def by (rule holds_options_reply) (simp_all add: ex_options_short)

lemma reachable_ex_overlap: "reachable 2 ex_overlap"
  unfolding ex_overlap_def using reachable_ex_second_soliciting by (rule reachable_update)




section \<open>Rejecting a Reply\<close>

lemma FindOption_loop_first:
  assumes "mBytes m = pre @ encode_options before @ encode_option (code, payload) @ tail"
    and "length (mBytes m) < 65536"
    and "\<forall>opt \<in> set before. fst opt \<noteq> code"
    and "length pre + length (encode_options before) \<le> unat aEnd"
  shows "FindOption_loop m (of_nat (length pre)) aEnd code =
           Some (of_nat (length pre + length (encode_options before)))"
  using assms
proof (induction before arbitrary: pre)
  case Nil
  have b: "mBytes m = pre @ (encode_option (code, payload) @ tail)"
    using Nil.prems by (simp add: encode_options_def)
  have lp: "length pre < 65536" using Nil.prems by simp
  have rd: "Read m (of_nat (length pre)) sizeof_Option =
              be_bytes 2 code @ be_bytes 2 (of_nat (length payload) :: 16 word)"
    using Read_at [OF b Nil.prems(2), of sizeof_Option] by (simp only: option_header fst_conv snd_conv)
  have lrd: "length (Read m (of_nat (length pre)) sizeof_Option) = sizeof_Option"
    unfolding rd by (simp add: wire_defs)
  have code: "GetCode (Read m (of_nat (length pre)) sizeof_Option) = code"
    unfolding rd by (rule GetCode_header)
  have le: "(of_nat (length pre) :: 16 word) \<le> aEnd"
    using of_nat_le16 [OF lp, of aEnd] Nil.prems(4) by (simp add: encode_options_def)
  show ?case
    apply (subst FindOption_loop.simps)
    apply (simp only: le lrd code Let_def)
    apply (simp add: encode_options_def)
    done
next
  case (Cons opt before)
  have lp: "length pre < 65536" using Cons.prems by simp
  have bytes: "mBytes m = pre @ (encode_option opt @ (encode_options before @ encode_option (code, payload) @ tail))"
    using Cons.prems by (simp add: encode_options_Cons)
  have rd: "Read m (of_nat (length pre)) sizeof_Option =
              be_bytes 2 (fst opt) @ be_bytes 2 (of_nat (length (snd opt)) :: 16 word)"
    using Read_at [OF bytes Cons.prems(2), of sizeof_Option] by (simp only: option_header)
  have lrd: "length (Read m (of_nat (length pre)) sizeof_Option) = sizeof_Option"
    unfolding rd by (simp add: wire_defs)
  have code: "GetCode (Read m (of_nat (length pre)) sizeof_Option) = fst opt"
    unfolding rd by (rule GetCode_header)
  have ne: "fst opt \<noteq> code" using Cons.prems(3) by simp
  have len: "GetOptLength (Read m (of_nat (length pre)) sizeof_Option) = of_nat (length (snd opt))"
    unfolding rd using GetOptLength_header [of "fst opt" _ "[]"] by simp
  have nxt: "(of_nat (length pre) :: 16 word) + of_nat sizeof_Option + of_nat (length (snd opt))
              = of_nat (length (pre @ encode_option opt))"
    by (simp add: length_encode_option)
  have ih: "FindOption_loop m (of_nat (length (pre @ encode_option opt))) aEnd code =
           Some (of_nat (length (pre @ encode_option opt) + length (encode_options before)))"
    using Cons.prems by (intro Cons.IH) (simp_all add: encode_options_Cons)
  have le: "(of_nat (length pre) :: 16 word) \<le> aEnd"
    using of_nat_le16 [OF lp, of aEnd] Cons.prems(4) by simp
  have tot: "length (pre @ encode_option opt) + length (encode_options before) =
               length pre + length (encode_options (opt # before))"
    by (simp add: encode_options_Cons)
  show ?case
    apply (subst FindOption_loop.simps)
    apply (simp only: le lrd code len nxt ih Let_def ne tot)
    apply simp
    done
qed

lemma map_of_first:
  "map_of opts code = Some payload \<Longrightarrow>
   \<exists>before after. opts = before @ (code, payload) # after \<and> (\<forall>opt \<in> set before. fst opt \<noteq> code)"
proof (induction opts)
  case Nil
  then show ?case by simp
next
  case (Cons opt opts)
  show ?case
  proof (cases "fst opt = code")
    case True
    with Cons.prems have "opt = (code, payload)" by (cases opt) simp
    then have "opt # opts = [] @ (code, payload) # opts \<and> (\<forall>opt \<in> set []. fst opt \<noteq> code)" by simp
    then show ?thesis by blast
  next
    case False
    with Cons.prems have "map_of opts code = Some payload" by (cases opt) (simp split: if_splits)
    from Cons.IH [OF this] obtain before after where
      "opts = before @ (code, payload) # after" "\<forall>opt \<in> set before. fst opt \<noteq> code" by blast
    with False have "opt # opts = (opt # before) @ (code, payload) # after \<and>
      (\<forall>x \<in> set (opt # before). fst x \<noteq> code)" by simp
    then show ?thesis by blast
  qed
qed

lemma ProcessReply_first_status:
  assumes bytes: "mBytes m = pre @ encode_options before @ encode_option (kOptionStatusCode, payload) @ tail"
    and l: "length (mBytes m) < 65536"
    and off: "mOffset m = of_nat (length pre)" "0 < length pre"
    and nb: "\<forall>opt \<in> set before. fst opt \<noteq> kOptionStatusCode"
    and bad: "\<not> status_success payload"
  shows "ProcessReply env c m = Some c"
proof -
  define p where "p = length pre + length (encode_options before)"
  have tot: "p + length (encode_option (kOptionStatusCode, payload) @ tail) = length (mBytes m)"
    unfolding p_def bytes by simp
  have p: "p < 65536" "p \<le> length (mBytes m)" using tot l by simp_all
  have e: "mOffset m + (GetLength m - mOffset m) = GetLength m" by simp
  have ue: "unat (GetLength m) = length (mBytes m)"
    unfolding GetLength_def using l by (rule unat_of_nat16)
  have le: "length pre + length (encode_options before) \<le> unat (GetLength m)"
    using p(2) unfolding p_def ue .
  have "FindOption_loop m (of_nat (length pre)) (GetLength m) kOptionStatusCode = Some (of_nat p)"
    unfolding p_def using bytes l nb le by (rule FindOption_loop_first)
  then have 1: "FindOption m (mOffset m) (GetLength m - mOffset m) kOptionStatusCode = Some (of_nat p)"
    by (simp add: FindOption_def off(1))
  have "unat (of_nat p :: 16 word) = p" using p(1) by (rule unat_of_nat16)
  moreover have "0 < p" unfolding p_def using off(2) by simp
  ultimately have 2: "(0 :: 16 word) < of_nat p" by (simp add: word_less_nat_alt)
  have b2: "mBytes m = (pre @ encode_options before) @ (encode_option (kOptionStatusCode, payload) @ tail)"
    using bytes by simp
  have 4: "Read m (of_nat p) n = take n (encode_option (kOptionStatusCode, payload) @ tail)" for n
    using Read_at [OF b2 l, of n] unfolding p_def by simp
  have "ProcessStatusCode m (of_nat p) \<noteq> OT_ERROR_NONE"
    using ProcessStatusCode_iff [OF 4 option_payload_short [OF tot l]] bad by simp
  with 2 have "0 < (of_nat p :: 16 word) \<and> ProcessStatusCode m (of_nat p) \<noteq> OT_ERROR_NONE" by simp
  then show ?thesis
    unfolding ProcessReply_def Let_def 1 by (simp only: bind.bind_lunit if_True if_False simp_thms)
qed

lemma ProcessIaNa_bad_status:
  assumes bytes: "mBytes m = pre @ encode_option (kOptionIaNa, fixed @ encode_options nested) @ rest"
    and l: "length (mBytes m) < 65536"
    and lf: "length fixed = 12"
    and f: "map_of nested kOptionStatusCode = Some sp"
    and bad: "\<not> status_success sp"
  shows "ProcessIaNa c m (of_nat (length pre)) = Some (OT_ERROR_PARSE, c)"
proof -
  from map_of_first [OF f] obtain before after where
    n: "nested = before @ (kOptionStatusCode, sp) # after"
    and nb: "\<forall>opt \<in> set before. fst opt \<noteq> kOptionStatusCode" by blast
  define P where "P = length pre"
  define W where "W = length (encode_options nested)"
  define payload where "payload = fixed @ encode_options nested"
  define pre' where "pre' = pre @ option_header kOptionIaNa payload @ fixed"
  define tail where "tail = encode_options after @ rest"
  have lpay: "length payload = 12 + W" unfolding payload_def W_def using lf by simp
  have b1: "mBytes m = pre @ (encode_option (kOptionIaNa, payload) @ rest)"
    using bytes unfolding payload_def by simp
  have h: "encode_option (kOptionIaNa, payload) = option_header kOptionIaNa payload @ payload"
    using encode_option_header [of kOptionIaNa payload "[]"] by simp
  have en: "encode_options nested = encode_options before @ encode_option (kOptionStatusCode, sp) @ encode_options after"
    unfolding n by (simp add: encode_options_def)
  have b2: "mBytes m = pre' @ encode_options before @ encode_option (kOptionStatusCode, sp) @ tail"
    using b1 unfolding pre'_def tail_def h by (simp add: payload_def en)
  have lpre': "length pre' = P + 16" unfolding pre'_def P_def using lf by simp
  have total: "P + 16 + W + length rest = length (mBytes m)"
    unfolding b1 P_def by (simp add: length_encode_option lpay wire_defs)
  have P16: "P + 16 < 65536" and PW: "P + 16 + W < 65536" and W: "W < 65536" and lp: "12 + W < 65536"
    using total l by simp_all
  \<comment> \<open>the read of the container\<close>
  define opt where "opt = Read m (of_nat (length pre)) sizeof_IaNa"
  have o: "opt = take 16 (encode_option (kOptionIaNa, payload) @ rest)"
    unfolding opt_def using Read_at [OF b1 l, of sizeof_IaNa] by (simp only: wire_defs)
  have lo: "length opt = sizeof_IaNa"
    unfolding o using lpay by (simp only: wire_defs) (intro length_read_option, simp)
  have len: "GetOptLength opt = of_nat (12 + W)"
    unfolding o using opt_fields(1) [of 16 kOptionIaNa payload rest] lpay by simp
  have win: "IaNa_window (GetOptLength opt) = of_nat W"
    unfolding len by (simp add: IaNa_window_def wire_defs)
  define q :: "16 word" where "q = of_nat (P + 16)"
  have off1: "(of_nat (length pre) :: 16 word) + of_nat sizeof_IaNa = q"
    unfolding P_def q_def by (simp add: wire_defs)
  have gl: "uint (GetLength m) = int (length (mBytes m))"
    unfolding GetLength_def using l by (rule uint_of_nat16)
  have chk: "uint (of_nat W :: 16 word) \<le> uint (GetLength m) - uint q"
    unfolding gl q_def uint_of_nat16 [OF P16] uint_of_nat16 [OF W] using total by simp
  \<comment> \<open>the scan of the window\<close>
  define p where "p = length pre' + length (encode_options before)"
  have ple: "p + length (encode_option (kOptionStatusCode, sp) @ tail) = length (mBytes m)"
    unfolding p_def b2 by simp
  have pW: "p \<le> P + 16 + W"
    unfolding p_def lpre' W_def en by simp
  have p: "p < 65536" using ple l by simp
  have e: "q + of_nat W = of_nat (P + 16 + W)" unfolding q_def by simp
  have ue: "unat (of_nat (P + 16 + W) :: 16 word) = P + 16 + W" using PW by (rule unat_of_nat16)
  have le: "length pre' + length (encode_options before) \<le> unat (of_nat (P + 16 + W) :: 16 word)"
    using pW unfolding p_def ue .
  have "FindOption_loop m (of_nat (length pre')) (of_nat (P + 16 + W)) kOptionStatusCode = Some (of_nat p)"
    unfolding p_def using b2 l nb le by (rule FindOption_loop_first)
  then have fs: "FindOption m q (of_nat W) kOptionStatusCode = Some (of_nat p)"
    unfolding FindOption_def e lpre' q_def [symmetric] .
  have "unat (of_nat p :: 16 word) = p" using p by (rule unat_of_nat16)
  moreover have "0 < p" unfolding p_def lpre' by simp
  ultimately have pos: "(0 :: 16 word) < of_nat p" by (simp add: word_less_nat_alt)
  have b3: "mBytes m = (pre' @ encode_options before) @ (encode_option (kOptionStatusCode, sp) @ tail)"
    using b2 by simp
  have R: "Read m (of_nat p) n = take n (encode_option (kOptionStatusCode, sp) @ tail)" for n
    using Read_at [OF b3 l, of n] unfolding p_def by simp
  have ps: "ProcessStatusCode m (of_nat p) \<noteq> OT_ERROR_NONE"
    using ProcessStatusCode_iff [OF R option_payload_short [OF ple l]] bad by simp
  then have pe: "ProcessStatusCode m (of_nat p) = OT_ERROR_PARSE"
    unfolding ProcessStatusCode_def Let_def by (simp split: if_splits)
  have both: "0 < (of_nat p :: 16 word) \<and> ProcessStatusCode m (of_nat p) \<noteq> OT_ERROR_NONE"
    using pos ps by simp
  show ?thesis
    unfolding ProcessIaNa_def Let_def opt_def [symmetric] win off1 fs
    using lo chk both pe
    by (simp only: bind.bind_lunit if_True if_False simp_thms not_not)
qed

lemma ProcessReply_reaches_IaNa:
  assumes o: "options_at m opts"
  obtains (rejected) "ProcessReply env c m = Some c"
  | (container) v where "FindOption m (mOffset m) (GetLength m - mOffset m) kOptionIaNa = Some v"
      "ProcessReply env c m =
         Option.bind (ProcessIaNa c m v)
           (\<lambda>(error, c1). if error \<noteq> OT_ERROR_NONE then Some c1
                           else Some (snd (HandleTrickleTimer env c1)))"
proof -
  obtain v1 where 1: "FindOption m (mOffset m) (GetLength m - mOffset m) kOptionStatusCode = Some v1"
    by (rule FindOption_returns [OF o])
  obtain v2 where 2: "FindOption m (mOffset m) (GetLength m - mOffset m) kOptionServerIdentifier = Some v2"
    by (rule FindOption_returns [OF o])
  obtain v3 where 3: "FindOption m (mOffset m) (GetLength m - mOffset m) kOptionClientIdentifier = Some v3"
    by (rule FindOption_returns [OF o])
  obtain v4 where 4: "FindOption m (mOffset m) (GetLength m - mOffset m) kOptionRapidCommit = Some v4"
    by (rule FindOption_returns [OF o])
  obtain v5 where 5: "FindOption m (mOffset m) (GetLength m - mOffset m) kOptionIaNa = Some v5"
    by (rule FindOption_returns [OF o])
  have eq: "ProcessReply env c m =
     (if 0 < v1 \<and> ProcessStatusCode m v1 \<noteq> OT_ERROR_NONE then Some c
      else if \<not> 0 < v2 then Some c
      else if ProcessServerIdentifier m v2 \<noteq> OT_ERROR_NONE then Some c
      else if \<not> 0 < v3 then Some c
      else if ProcessClientIdentifier env m v3 \<noteq> OT_ERROR_NONE then Some c
      else if \<not> 0 < v4 then Some c
      else if \<not> 0 < v5 then Some c
      else Option.bind (ProcessIaNa c m v5)
           (\<lambda>(error, c1). if error \<noteq> OT_ERROR_NONE then Some c1
                           else Some (snd (HandleTrickleTimer env c1))))"
    unfolding ProcessReply_def Let_def 1 2 3 4 5 by (simp only: bind.bind_lunit)
  show thesis
  proof (cases "ProcessReply env c m = Some c")
    case True
    then show thesis by (rule rejected)
  next
    case False
    with eq have "ProcessReply env c m =
         Option.bind (ProcessIaNa c m v5)
           (\<lambda>(error, c1). if error \<noteq> OT_ERROR_NONE then Some c1
                           else Some (snd (HandleTrickleTimer env c1)))"
      by (simp split: if_splits)
    with 5 show thesis by (rule container)
  qed
qed

lemma ProcessReply_nested_status:
  assumes o: "options_at m opts"
    and iana: "map_of opts kOptionIaNa = Some (fixed @ encode_options nested)"
    and lf: "length fixed = 12"
    and f: "map_of nested kOptionStatusCode = Some sp"
    and bad: "\<not> status_success sp"
  shows "ProcessReply env c m = Some c"
proof (rule ProcessReply_reaches_IaNa [OF o, of env c])
  assume "ProcessReply env c m = Some c"
  then show ?thesis .
next
  fix v
  assume v: "FindOption m (mOffset m) (GetLength m - mOffset m) kOptionIaNa = Some v"
    and r: "ProcessReply env c m =
         Option.bind (ProcessIaNa c m v)
           (\<lambda>(error, c1). if error \<noteq> OT_ERROR_NONE then Some c1
                           else Some (snd (HandleTrickleTimer env c1)))"
  have l: "length (mBytes m) < 65536" using o by (simp add: options_at_def)
  show ?thesis
  proof (rule option_found_in_bytes [OF o iana])
    fix pre after
    assume a: "FindOption m (mOffset m) (GetLength m - mOffset m) kOptionIaNa = Some (of_nat (length pre))"
      and bytes: "mBytes m = pre @ encode_option (kOptionIaNa, fixed @ encode_options nested) @
                    encode_options after"
    from a v have ve: "v = of_nat (length pre)" by simp
    have "ProcessIaNa c m v = Some (OT_ERROR_PARSE, c)"
      unfolding ve using bytes l lf f bad by (rule ProcessIaNa_bad_status)
    then show ?thesis unfolding r by simp
  qed
qed

lemma starts_with_options_moved:
  assumes "starts_with_options m (before @ [opt]) tail"
  shows "mBytes (MoveOffset m sizeof_Header) =
           take (unat (mOffset m) + 4) (mBytes m) @ encode_options before @ encode_option opt @ tail"
    and "mOffset (MoveOffset m sizeof_Header) = of_nat (length (take (unat (mOffset m) + 4) (mBytes m)))"
    and "0 < length (take (unat (mOffset m) + 4) (mBytes m))"
    and "length (mBytes (MoveOffset m sizeof_Header)) < 65536"
proof -
  from assms have l: "length (mBytes m) < 65536"
    and le: "unat (mOffset m) + 4 \<le> length (mBytes m)"
    and d: "drop (unat (mOffset m) + 4) (mBytes m) = encode_options (before @ [opt]) @ tail"
    by (simp_all add: starts_with_options_def wire_defs)
  have e: "encode_options (before @ [opt]) = encode_options before @ encode_option opt"
    by (simp add: encode_options_def)
  from append_take_drop_id [of "unat (mOffset m) + 4" "mBytes m"] d
  show "mBytes (MoveOffset m sizeof_Header) =
           take (unat (mOffset m) + 4) (mBytes m) @ encode_options before @ encode_option opt @ tail"
    by (simp add: MoveOffset_def e)
  have t: "length (take (unat (mOffset m) + 4) (mBytes m)) = unat (mOffset m) + 4" using le by simp
  show "mOffset (MoveOffset m sizeof_Header) = of_nat (length (take (unat (mOffset m) + 4) (mBytes m)))"
    unfolding t by (simp add: MoveOffset_def wire_defs)
  show "0 < length (take (unat (mOffset m) + 4) (mBytes m))" unfolding t by simp
  show "length (mBytes (MoveOffset m sizeof_Header)) < 65536" using l by (simp add: MoveOffset_def)
qed

lemma ex_nested_status_short: "length (encode_options ex_nested_status) = 86"
  by (simp add: length_encode_options ex_nested_status_def length_client_duid wire_defs)

text \<open>
  C7. The claim is that a Reply holding a ClientIdentifier that differs from the node's
  DUID, or a StatusCode that is not success, leaves the client as it was. \<^verbatim>\<open>FindOption\<close>
  returns the first option of a code and \<^verbatim>\<open>ProcessReply\<close> reads no other: a Reply with a
  StatusCode of success followed by one of status 1, and a Reply with the node's
  ClientIdentifier followed by another one, are both accepted. The soliciting binding
  becomes \<^verbatim>\<open>kIaStatusSolicitReplied\<close> and its address is added to the interface.
\<close>

theorem later_option_is_not_read:
  "holds_options (reply_message [1, 2, 3] ((kOptionStatusCode, [0, 0]) # (kOptionStatusCode, [0, 1]) # ex_options 5 100))
     ((kOptionStatusCode, [0, 0]) # (kOptionStatusCode, [0, 1]) # ex_options 5 100)
   \<and> \<not> status_success [0, 1]
   \<and> HandleUdpReceive (ex_env [ex_config 1 64 7]) ex_soliciting
        (reply_message [1, 2, 3] ((kOptionStatusCode, [0, 0]) # (kOptionStatusCode, [0, 1]) # ex_options 5 100))
       = Some ex_replied
   \<and> holds_options (reply_message [1, 2, 3] (ex_options 5 100 @ [(kOptionClientIdentifier, client_duid [2, 0, 0, 0, 0, 0, 0, 9])]))
       (ex_options 5 100 @ [(kOptionClientIdentifier, client_duid [2, 0, 0, 0, 0, 0, 0, 9])])
   \<and> HandleUdpReceive (ex_env [ex_config 1 64 7]) ex_soliciting
        (reply_message [1, 2, 3] (ex_options 5 100 @ [(kOptionClientIdentifier, client_duid [2, 0, 0, 0, 0, 0, 0, 9])]))
       = Some ex_replied
   \<and> mStatus (mIdentityAssociations ex_soliciting ! 0) = kIaStatusSoliciting
   \<and> mNetifCalls ex_soliciting = []
   \<and> mStatus (mIdentityAssociations ex_replied ! 0) = kIaStatusSolicitReplied
   \<and> mValidLifetime (mIdentityAssociations ex_replied ! 0) = 100
   \<and> mNetifCalls ex_replied = [AddUnicastAddress (mNetifAddress (mIdentityAssociations ex_replied ! 0))]"
proof -
  have 1: "holds_options (reply_message [1, 2, 3] ((kOptionStatusCode, [0, 0]) # (kOptionStatusCode, [0, 1]) # ex_options 5 100))
     ((kOptionStatusCode, [0, 0]) # (kOptionStatusCode, [0, 1]) # ex_options 5 100)"
    by (rule holds_options_reply)
       (simp_all add: encode_options_Cons length_encode_option ex_options_short wire_defs)
  have 2: "holds_options (reply_message [1, 2, 3] (ex_options 5 100 @ [(kOptionClientIdentifier, client_duid [2, 0, 0, 0, 0, 0, 0, 9])]))
       (ex_options 5 100 @ [(kOptionClientIdentifier, client_duid [2, 0, 0, 0, 0, 0, 0, 9])])"
    by (rule holds_options_reply)
       (simp_all add: length_encode_options ex_options_def length_client_duid wire_defs)
  have 3: "\<not> status_success [0, 1]" by (simp add: status_success_def be_word_def wire_defs)
  have 4: "HandleUdpReceive (ex_env [ex_config 1 64 7]) ex_soliciting
        (reply_message [1, 2, 3] ((kOptionStatusCode, [0, 0]) # (kOptionStatusCode, [0, 1]) # ex_options 5 100))
       = Some ex_replied"
    "HandleUdpReceive (ex_env [ex_config 1 64 7]) ex_soliciting
        (reply_message [1, 2, 3] (ex_options 5 100 @ [(kOptionClientIdentifier, client_duid [2, 0, 0, 0, 0, 0, 0, 9])]))
       = Some ex_replied"
    "mStatus (mIdentityAssociations ex_soliciting ! 0) = kIaStatusSoliciting"
    "mNetifCalls ex_soliciting = []"
    "mStatus (mIdentityAssociations ex_replied ! 0) = kIaStatusSolicitReplied"
    "mValidLifetime (mIdentityAssociations ex_replied ! 0) = 100"
    "mNetifCalls ex_replied = [AddUnicastAddress (mNetifAddress (mIdentityAssociations ex_replied ! 0))]"
    by code_simp+
  from 1 2 3 4 show ?thesis by blast
qed

text \<open>
  C7, amended. A datagram is processed without any change of the client (bindings,
  current binding, transaction id, timer, socket, the calls made on the interface table
  and the datagrams sent are all part of the state) when (a) its message type is not
  Reply, or (b) its transaction id is not the outstanding one, or (c) it is a sequence of
  options in which the first ClientIdentifier is not the node's DUID (it is absent or
  differs in some byte), or (d) its options up to the first StatusCode are well formed
  and that StatusCode does not carry success, whatever follows it, or (e) it is a
  sequence of options in which the first IA_NA holds a sequence of options whose first
  StatusCode does not carry success.
\<close>

theorem rejected_datagram_leaves_client_unchanged:
  assumes "take 1 (Read m (mOffset m) sizeof_Header) \<noteq> [kTypeReply]
         \<or> drop 1 (Read m (mOffset m) sizeof_Header) \<noteq> mTransactionId c
         \<or> (holds_options m opts \<and>
             map_of opts kOptionClientIdentifier \<noteq> Some (client_duid (envEui64 env)))
         \<or> (starts_with_options m (before @ [(kOptionStatusCode, payload)]) tail \<and>
             (\<forall>opt \<in> set before. fst opt \<noteq> kOptionStatusCode) \<and>
             \<not> status_success payload)
         \<or> (holds_options m opts \<and>
             map_of opts kOptionIaNa = Some (fixed @ encode_options nested) \<and> length fixed = 12 \<and>
             map_of nested kOptionStatusCode = Some payload \<and> \<not> status_success payload)"
  shows "HandleUdpReceive env c m = Some c"
proof -
  define header where "header = Read m (mOffset m) sizeof_Header"
  have def: "HandleUdpReceive env c m =
     (if length header \<noteq> 4 then Some c
      else if hd header = kTypeReply \<and> tl header = mTransactionId c
      then ProcessReply env c (MoveOffset m sizeof_Header)
      else Some c)"
    unfolding HandleUdpReceive_def Let_def header_def [symmetric] by (simp add: wire_defs)
  have hdr: "take 1 header = [hd header]" "drop 1 header = tl header" if "length header = 4"
    using that by (cases header; simp)+
  from assms consider
      (a) "take 1 header \<noteq> [kTypeReply]"
    | (b) "drop 1 header \<noteq> mTransactionId c"
    | (c) "holds_options m opts" "map_of opts kOptionClientIdentifier \<noteq> Some (client_duid (envEui64 env))"
    | (d) "starts_with_options m (before @ [(kOptionStatusCode, payload)]) tail"
          "\<forall>opt \<in> set before. fst opt \<noteq> kOptionStatusCode" "\<not> status_success payload"
    | (e) "holds_options m opts" "map_of opts kOptionIaNa = Some (fixed @ encode_options nested)"
          "length fixed = 12" "map_of nested kOptionStatusCode = Some payload" "\<not> status_success payload"
    unfolding header_def by blast
  then show ?thesis
  proof cases
    case a
    then show ?thesis unfolding def using hdr by auto
  next
    case b
    then show ?thesis unfolding def using hdr by auto
  next
    case c
    have "ProcessReply env c (MoveOffset m sizeof_Header) = Some c"
      using holds_options_moved [OF c(1)] c(2) by (rule ProcessReply_bad_client)
    then show ?thesis unfolding def by simp
  next
    case d
    note s = starts_with_options_moved [OF d(1)]
    have "ProcessReply env c (MoveOffset m sizeof_Header) = Some c"
      using s(1) s(4) s(2) s(3) d(2) d(3) by (rule ProcessReply_first_status)
    then show ?thesis unfolding def by simp
  next
    case e
    have "ProcessReply env c (MoveOffset m sizeof_Header) = Some c"
      using holds_options_moved [OF e(1)] e(2-5) by (rule ProcessReply_nested_status)
    then show ?thesis unfolding def by simp
  qed
qed

theorem rejected_datagram_leaves_client_unchanged_witness:
  "HandleUdpReceive (ex_env [ex_config 1 64 7]) ex_soliciting
     (reply_message [1, 2, 3] ex_nested_status) = Some ex_soliciting"
proof (rule rejected_datagram_leaves_client_unchanged
        [where opts = ex_nested_status and fixed = "replicate 12 0" and payload = "[0, 1]"
           and nested = "[(kOptionStatusCode, [0, 1]),
                         (kOptionIaAddress, be_bytes 16 (5 :: 128 word) @ be_bytes 4 (50 :: 32 word) @
                                            be_bytes 4 (100 :: 32 word))]"],
       intro disjI2 conjI)
  show "holds_options (reply_message [1, 2, 3] ex_nested_status) ex_nested_status"
    by (rule holds_options_reply) (simp_all add: ex_nested_status_short)
  show "map_of ex_nested_status kOptionIaNa =
          Some (replicate 12 0 @ encode_options [(kOptionStatusCode, [0, 1]),
                         (kOptionIaAddress, be_bytes 16 (5 :: 128 word) @ be_bytes 4 (50 :: 32 word) @
                                            be_bytes 4 (100 :: 32 word))])"
    by (simp add: ex_nested_status_def wire_defs)
  show "length (replicate 12 (0 :: byte)) = 12" by simp
  show "map_of [(kOptionStatusCode, [0, 1]),
                (kOptionIaAddress, be_bytes 16 (5 :: 128 word) @ be_bytes 4 (50 :: 32 word) @
                                   be_bytes 4 (100 :: 32 word))] kOptionStatusCode = Some [0, 1]"
    by simp
  show "\<not> status_success [0, 1]" by (simp add: status_success_def be_word_def wire_defs)
qed

section \<open>The IA container of a Solicit\<close>

lemma be_bytes_zero: "be_bytes n 0 = replicate n 0"
  by (simp add: be_bytes_def map_replicate_const)

lemma IaNa_bytes_eq: "IaNa_bytes len = be_bytes 2 kOptionIaNa @ be_bytes 2 len @ replicate 12 0"
  by (simp add: IaNa_bytes_def be_bytes_zero replicate_add [symmetric])

lemma IaAddress_bytes_eq:
  "IaAddress_bytes a 0 0 = encode_option (kOptionIaAddress, be_bytes 16 a @ replicate 8 0)"
  by (simp add: IaAddress_bytes_def encode_option_def be_bytes_zero wire_defs replicate_add [symmetric])

lemma IaNa_length_mod:
  "unat (IaNa_length (of_nat k)) = (sizeof_IaNa - sizeof_Option) + (k mod 256) * sizeof_IaAddress"
proof -
  define j where "j = k mod 256"
  have j: "j < 256" unfolding j_def by simp
  have "(of_nat k :: 8 word) = of_nat j"
    unfolding j_def by (simp add: word_eq_iff_unsigned [where ?'a = nat] unsigned_of_nat take_bit_eq_mod)
  then have e: "IaNa_length (of_nat k) = IaNa_length (of_nat j)" by simp
  show ?thesis unfolding e j_def [symmetric] using j by (rule IaNa_length_eq)
qed

lemma count_256: "count_associations 0 (replicate n (IdentityAssociation_zero\<lparr>mStatus := kIaStatusSolicit\<rparr>)) count
   = count + of_nat n"
  by (simp add: count_associations_eq requested_for_def IdentityAssociation_zero_def)

text \<open>
  C8. The claim is that the length field of the IA_NA is the fixed fields plus \<open>k\<close> times
  the size of an IA-Address option, for every pool. The counter of \<^verbatim>\<open>AppendIaNa\<close> is a
  \<^verbatim>\<open>uint8_t\<close>: with 256 bindings waiting for the agent it is back at 0, the length field
  is 12, the fixed fields alone, and 256 IA-Address options follow.
\<close>

theorem IaNa_length_wraps_at_256:
  "length (filter (requested_for 0) (mIdentityAssociations ex_pool_256)) = 256
   \<and> AppendIaNa ((ex_env [])\<lparr>envBuffers := 8000\<rparr>) ex_pool_256 [] 0 =
       Inr [0, 3, 0, 12, 0, 0, 0, 0, 0, 0, 0, 0, 0, 0, 0, 0]
   \<and> AppendIaAddress ((ex_env [])\<lparr>envBuffers := 8000\<rparr>) ex_pool_256
         [0, 3, 0, 12, 0, 0, 0, 0, 0, 0, 0, 0, 0, 0, 0, 0] 0 =
       Inr ([0, 3, 0, 12, 0, 0, 0, 0, 0, 0, 0, 0, 0, 0, 0, 0] @
            concat (replicate 256
              [0, 5, 0, 24, 0, 0, 0, 0, 0, 0, 0, 0, 0, 0, 0, 0, 0, 0, 0, 0, 0, 0, 0, 0, 0, 0, 0, 0]))"
proof -
  let ?ia = "IdentityAssociation_zero\<lparr>mStatus := kIaStatusSolicit\<rparr>"
  have p: "mIdentityAssociations ex_pool_256 = replicate 256 ?ia"
    "mIdentityAssociationCurrent ex_pool_256 = Some 0"
    by (simp_all add: ex_pool_256_def Client_init_def)
  have r: "requested_for 0 ?ia" by (simp add: requested_for_def IdentityAssociation_zero_def)
  have k: "filter (requested_for 0) (replicate 256 ?ia) = replicate 256 ?ia"
    using r by simp
  have 1: "length (filter (requested_for 0) (mIdentityAssociations ex_pool_256)) = 256"
    unfolding p k by simp
  have c: "count_associations 0 (replicate 256 ?ia) 0 = 0"
    unfolding count_256 by simp
  have b: "IaNa_bytes (IaNa_length 0) = [0, 3, 0, 12, 0, 0, 0, 0, 0, 0, 0, 0, 0, 0, 0, 0]"
    by code_simp
  have 2: "AppendIaNa ((ex_env [])\<lparr>envBuffers := 8000\<rparr>) ex_pool_256 [] 0 =
       Inr [0, 3, 0, 12, 0, 0, 0, 0, 0, 0, 0, 0, 0, 0, 0, 0]"
    unfolding AppendIaNa_def p c Let_def b by (simp add: Append_def ex_env_def)
  have a: "IaAddress_bytes (mAddress (mNetifAddress IdentityAssociation_zero)) 0 0 =
      [0, 5, 0, 24, 0, 0, 0, 0, 0, 0, 0, 0, 0, 0, 0, 0, 0, 0, 0, 0, 0, 0, 0, 0, 0, 0, 0, 0]"
    by code_simp
  have "length [0, 3, 0, 12, 0, 0, 0, 0, 0, 0, 0, 0, 0, 0, 0, 0 :: byte] +
          sizeof_IaAddress * length (filter (requested_for 0) (replicate 256 ?ia)) \<le> 8000"
    unfolding k by (simp add: wire_defs)
  from append_addresses_eq [OF this]
  have 3: "AppendIaAddress ((ex_env [])\<lparr>envBuffers := 8000\<rparr>) ex_pool_256
         [0, 3, 0, 12, 0, 0, 0, 0, 0, 0, 0, 0, 0, 0, 0, 0] 0 =
       Inr ([0, 3, 0, 12, 0, 0, 0, 0, 0, 0, 0, 0, 0, 0, 0, 0] @
            concat (replicate 256
              [0, 5, 0, 24, 0, 0, 0, 0, 0, 0, 0, 0, 0, 0, 0, 0, 0, 0, 0, 0, 0, 0, 0, 0, 0, 0, 0, 0]))"
    unfolding AppendIaAddress_def p k by (simp add: ex_env_def a)
  from 1 2 3 show ?thesis by blast
qed

text \<open>
  C8, amended. With a current binding and room in the message, \<^verbatim>\<open>AppendIaNa\<close> appends
  the code of IA_NA, a length field, and twelve zero bytes for IAID, T1 and T2. The length
  field is the fixed fields (the structure less the option header) plus \<open>k mod 256\<close>
  times the size of an IA-Address option, where \<open>k\<close> counts the bindings that are neither
  invalid nor replied and belong to the agent \<open>r\<close>. \<^verbatim>\<open>AppendIaAddress\<close> then appends
  exactly \<open>k\<close> IA-Address options, one for each of these bindings in pool order: the code
  of IA-Address, the length 24, the binding's address and two zero lifetimes. When
  \<open>k < 256\<close> the length field covers them: what was appended is one IA_NA option whose
  payload is the fixed fields and these \<open>k\<close> options.
\<close>

theorem IaNa_length_covers_addresses:
  assumes cur: "mIdentityAssociationCurrent c \<noteq> None"
    and cap: "length msg + sizeof_IaNa +
              sizeof_IaAddress * length (filter (requested_for r) (mIdentityAssociations c)) \<le> envBuffers env"
  shows "\<exists>len :: 16 word. AppendIaNa env c msg r =
                 Inr (msg @ be_bytes 2 kOptionIaNa @ be_bytes 2 len @ replicate 12 0)
            \<and> unat len = (sizeof_IaNa - sizeof_Option) +
                 (length (filter (requested_for r) (mIdentityAssociations c)) mod 256) * sizeof_IaAddress
            \<and> AppendIaAddress env c (msg @ be_bytes 2 kOptionIaNa @ be_bytes 2 len @ replicate 12 0) r =
                 Inr (msg @ be_bytes 2 kOptionIaNa @ be_bytes 2 len @ replicate 12 0 @
                      encode_options
                        (map (\<lambda>ia. (kOptionIaAddress, be_bytes 16 (mAddress (mNetifAddress ia)) @ replicate 8 0))
                             (filter (requested_for r) (mIdentityAssociations c))))
            \<and> (length (filter (requested_for r) (mIdentityAssociations c)) < 256 \<longrightarrow>
                 be_bytes 2 kOptionIaNa @ be_bytes 2 len @ replicate 12 0 @
                 encode_options
                   (map (\<lambda>ia. (kOptionIaAddress, be_bytes 16 (mAddress (mNetifAddress ia)) @ replicate 8 0))
                        (filter (requested_for r) (mIdentityAssociations c)))
                 = encode_option (kOptionIaNa, replicate 12 0 @
                     encode_options
                       (map (\<lambda>ia. (kOptionIaAddress, be_bytes 16 (mAddress (mNetifAddress ia)) @ replicate 8 0))
                            (filter (requested_for r) (mIdentityAssociations c)))))"
proof -
  let ?req = "filter (requested_for r) (mIdentityAssociations c)"
  let ?k = "length ?req"
  let ?len = "IaNa_length (of_nat ?k)"
  let ?opts = "map (\<lambda>ia. (kOptionIaAddress, be_bytes 16 (mAddress (mNetifAddress ia)) @ replicate 8 0)) ?req"
  let ?head = "be_bytes 2 kOptionIaNa @ be_bytes 2 ?len @ replicate 12 0"
  have cnt: "count_associations r (mIdentityAssociations c) 0 = of_nat ?k"
    by (simp add: count_associations_eq)
  have a: "AppendIaNa env c msg r = Inr (msg @ ?head)"
    using cur cap by (simp add: AppendIaNa_def cnt Append_def IaNa_bytes_eq [symmetric])
  have b: "unat ?len = (sizeof_IaNa - sizeof_Option) + (?k mod 256) * sizeof_IaAddress"
    by (rule IaNa_length_mod)
  have enc: "concat (map (\<lambda>ia. IaAddress_bytes (mAddress (mNetifAddress ia)) 0 0) ?req) = encode_options ?opts"
    by (simp add: encode_options_def IaAddress_bytes_eq comp_def)
  have "length (msg @ ?head) + sizeof_IaAddress * ?k \<le> envBuffers env"
    using cap by (simp add: wire_defs)
  from append_addresses_eq [OF this]
  have d: "AppendIaAddress env c (msg @ ?head) r = Inr (msg @ ?head @ encode_options ?opts)"
    using cur by (simp add: AppendIaAddress_def enc)
  have lo: "length (encode_options ?opts) = 28 * ?k"
    by (simp add: encode_options_def comp_def length_encode_option length_concat sum_list_triv wire_defs)
  have e: "?head @ encode_options ?opts = encode_option (kOptionIaNa, replicate 12 0 @ encode_options ?opts)"
    if "?k < 256"
  proof -
    have "unat ?len = 12 + 28 * ?k" using b that by (simp add: wire_defs)
    moreover have "?len = of_nat (unat ?len)" by simp
    ultimately have "?len = of_nat (12 + 28 * ?k)" by simp
    then show ?thesis by (simp add: encode_option_def lo)
  qed
  have d': "AppendIaAddress env c (msg @ be_bytes 2 kOptionIaNa @ be_bytes 2 ?len @ replicate 12 0) r =
              Inr (msg @ be_bytes 2 kOptionIaNa @ be_bytes 2 ?len @ replicate 12 0 @ encode_options ?opts)"
    using d by simp
  have e': "be_bytes 2 kOptionIaNa @ be_bytes 2 ?len @ replicate 12 0 @ encode_options ?opts =
              encode_option (kOptionIaNa, replicate 12 0 @ encode_options ?opts)"
    if "?k < 256"
    using e [OF that] by simp
  show ?thesis
  proof (rule exI [of _ ?len], intro conjI impI)
    show "AppendIaNa env c msg r = Inr (msg @ be_bytes 2 kOptionIaNa @ be_bytes 2 ?len @ replicate 12 0)"
      by (rule a)
    show "unat ?len = (sizeof_IaNa - sizeof_Option) + (?k mod 256) * sizeof_IaAddress"
      by (rule b)
    show "AppendIaAddress env c (msg @ be_bytes 2 kOptionIaNa @ be_bytes 2 ?len @ replicate 12 0) r =
              Inr (msg @ be_bytes 2 kOptionIaNa @ be_bytes 2 ?len @ replicate 12 0 @ encode_options ?opts)"
      by (rule d')
    show "be_bytes 2 kOptionIaNa @ be_bytes 2 ?len @ replicate 12 0 @ encode_options ?opts =
              encode_option (kOptionIaNa, replicate 12 0 @ encode_options ?opts)"
      if "?k < 256"
      using that by (rule e')
  qed
qed

lemma ex_two_requested_state:
  "mIdentityAssociations ex_two_requested =
     [\<lparr>mNetifAddress = \<lparr>mAddress = 0xFD000000000000010000000000000000, mPrefixLength = 64,
                        mAddressOrigin = OT_ADDRESS_ORIGIN_THREAD, mPreferred = False, mValid = False\<rparr>,
       mPreferredLifetime = 0, mValidLifetime = 0, mPrefixAgentRloc = 7,
       mStatus = kIaStatusSoliciting\<rparr>,
      \<lparr>mNetifAddress = \<lparr>mAddress = 0xFD000000000000020000000000000000, mPrefixLength = 64,
                        mAddressOrigin = OT_ADDRESS_ORIGIN_THREAD, mPreferred = False, mValid = False\<rparr>,
       mPreferredLifetime = 0, mValidLifetime = 0, mPrefixAgentRloc = 7,
       mStatus = kIaStatusSolicit\<rparr>]"
  "mIdentityAssociationCurrent ex_two_requested = Some 0"
  by code_simp+

lemma reachable_ex_two_requested: "reachable 2 ex_two_requested"
proof -
  let ?s1 = "UpdateAddresses (ex_env [ex_prefix_a, ex_prefix_b]) (Client_init 2)"
  have 1: "reachable 2 ?s1" by (rule reachable_update) (rule reachable_init)
  have "mTrickleRunning ?s1" by code_simp
  with 1 show ?thesis unfolding ex_two_requested_def by (rule reachable_timer)
qed

theorem IaNa_length_covers_addresses_witness:
  "reachable 2 ex_two_requested
   \<and> AppendIaNa (ex_env []) ex_two_requested [] 7 = Inr ([0, 3, 0, 68] @ replicate 12 0)
   \<and> AppendIaAddress (ex_env []) ex_two_requested ([0, 3, 0, 68] @ replicate 12 0) 7 =
     Inr ([0, 3, 0, 68] @ replicate 12 0 @
          [0, 5, 0, 24, 0xFD, 0, 0, 0, 0, 0, 0, 1, 0, 0, 0, 0, 0, 0, 0, 0, 0, 0, 0, 0, 0, 0, 0, 0] @
          [0, 5, 0, 24, 0xFD, 0, 0, 0, 0, 0, 0, 2, 0, 0, 0, 0, 0, 0, 0, 0, 0, 0, 0, 0, 0, 0, 0, 0])"
proof -
  have k: "filter (requested_for 7) (mIdentityAssociations ex_two_requested) =
             mIdentityAssociations ex_two_requested"
    unfolding ex_two_requested_state by (simp add: requested_for_def)
  have "mIdentityAssociationCurrent ex_two_requested \<noteq> None"
    by (simp add: ex_two_requested_state)
  moreover have "length [] + sizeof_IaNa +
      sizeof_IaAddress * length (filter (requested_for 7) (mIdentityAssociations ex_two_requested))
        \<le> envBuffers (ex_env [])"
    unfolding k by (simp add: ex_two_requested_state ex_env_def wire_defs)
  ultimately obtain len :: "16 word" where
    a: "AppendIaNa (ex_env []) ex_two_requested [] 7 =
          Inr ([] @ be_bytes 2 kOptionIaNa @ be_bytes 2 len @ replicate 12 0)"
    and l: "unat len = (sizeof_IaNa - sizeof_Option) +
          (length (filter (requested_for 7) (mIdentityAssociations ex_two_requested)) mod 256) * sizeof_IaAddress"
    and d: "AppendIaAddress (ex_env []) ex_two_requested
              ([] @ be_bytes 2 kOptionIaNa @ be_bytes 2 len @ replicate 12 0) 7 =
          Inr ([] @ be_bytes 2 kOptionIaNa @ be_bytes 2 len @ replicate 12 0 @
               encode_options
                 (map (\<lambda>ia. (kOptionIaAddress, be_bytes 16 (mAddress (mNetifAddress ia)) @ replicate 8 0))
                      (filter (requested_for 7) (mIdentityAssociations ex_two_requested))))"
    using IaNa_length_covers_addresses [of ex_two_requested "[]" 7 "ex_env []"] by blast
  have "unat len = 68" using l unfolding k by (simp add: ex_two_requested_state wire_defs)
  moreover have "len = of_nat (unat len)" by simp
  ultimately have len: "len = 68" by simp
  have h: "be_bytes 2 kOptionIaNa = [0, 3]" "be_bytes 2 (68 :: 16 word) = [0, 68]"
    by code_simp+
  have o: "encode_options
                 (map (\<lambda>ia. (kOptionIaAddress, be_bytes 16 (mAddress (mNetifAddress ia)) @ replicate 8 0))
                      (mIdentityAssociations ex_two_requested)) =
          [0, 5, 0, 24, 0xFD, 0, 0, 0, 0, 0, 0, 1, 0, 0, 0, 0, 0, 0, 0, 0, 0, 0, 0, 0, 0, 0, 0, 0] @
          [0, 5, 0, 24, 0xFD, 0, 0, 0, 0, 0, 0, 2, 0, 0, 0, 0, 0, 0, 0, 0, 0, 0, 0, 0, 0, 0, 0, 0]"
    unfolding ex_two_requested_state by code_simp
  from a d reachable_ex_two_requested show ?thesis unfolding len k o h by simp
qed

section \<open>Reconciling twice\<close>

lemma find_association_eq:
  "find_association p ias k idA =
    (if hit_index p ias < length ias then (True, Some (k + hit_index p ias))
     else (False, if idA \<noteq> None then idA
                  else if free_index ias < length ias then Some (k + free_index ias) else None))"
proof (induction ias arbitrary: k idA)
  case Nil
  then show ?case by (simp add: hit_index_def free_index_def)
next
  case (Cons ia ias)
  show ?case
  proof (cases "mStatus ia = kIaStatusInvalid")
    case True
    then show ?thesis
      by (simp add: Cons.IH hit_index_def free_index_def hit_def)
  next
    case False
    then show ?thesis
      by (simp add: Cons.IH hit_index_def free_index_def hit_def)
  qed
qed

lemma free_index_le: "free_index ias \<le> length ias"
  by (simp add: free_index_def length_takeWhile_le)

lemma hit_index_le: "hit_index p ias \<le> length ias"
  by (simp add: hit_index_def length_takeWhile_le)

lemma add_prefix_settled:
  "mDhcp d \<Longrightarrow> settled d ias \<Longrightarrow> add_prefix d ias = rloc_step (tgt d ias) (mRloc16 d) ias"
  using free_index_le [of ias]
  by (auto simp: add_prefix_def find_association_eq tgt_def settled_def rloc_step_def)

lemma add_prefix_claim:
  "mDhcp d \<Longrightarrow> \<not> settled d ias \<Longrightarrow>
   add_prefix d ias = ias[free_index ias := claim d (ias ! free_index ias)]"
  using free_index_le [of ias]
  by (auto simp: add_prefix_def find_association_eq settled_def)

lemma length_takeWhile_update:
  assumes "\<And>x. P (f x) = P x"
  shows "length (takeWhile P (xs[j := f (xs ! j)])) = length (takeWhile P xs)"
proof (induction xs arbitrary: j)
  case Nil
  then show ?case by simp
next
  case (Cons x xs)
  then show ?case using assms by (cases j) simp_all
qed

lemma hit_rloc [simp]: "hit p (ia\<lparr>mPrefixAgentRloc := r\<rparr>) = hit p ia"
  by (simp add: hit_def)

lemma length_rloc_step [simp]: "length (rloc_step t r ias) = length ias"
  by (simp add: rloc_step_def split: option.splits)

lemma hit_index_rloc_step [simp]: "hit_index p (rloc_step t r ias) = hit_index p ias"
  unfolding hit_index_def rloc_step_def
  by (cases t) (simp_all add: length_takeWhile_update [where f = "\<lambda>ia. ia\<lparr>mPrefixAgentRloc := r\<rparr>"])

lemma free_index_rloc_step [simp]: "free_index (rloc_step t r ias) = free_index ias"
  unfolding free_index_def rloc_step_def
  by (cases t) (simp_all add: length_takeWhile_update [where f = "\<lambda>ia. ia\<lparr>mPrefixAgentRloc := r\<rparr>"])

lemma tgt_rloc_step [simp]: "tgt d (rloc_step t r ias) = tgt d ias"
  by (simp add: tgt_def)

lemma settled_rloc_step [simp]: "settled d (rloc_step t r ias) = settled d ias"
  by (simp add: settled_def)

lemma rloc_step_same: "rloc_step t r' (rloc_step t r x) = rloc_step t r' x"
proof (cases t)
  case None
  then show ?thesis by (simp add: rloc_step_def)
next
  case (Some j)
  show ?thesis
  proof (cases "j < length x")
    case True
    with Some show ?thesis by (simp add: rloc_step_def)
  next
    case False
    with Some show ?thesis by (simp add: rloc_step_def list_update_beyond)
  qed
qed

lemma rloc_step_commute:
  "t \<noteq> t' \<Longrightarrow> rloc_step t' r' (rloc_step t r x) = rloc_step t r (rloc_step t' r' x)"
  by (cases t; cases t') (auto simp: rloc_step_def list_update_swap)

lemma replay_absorb:
  "rloc_step t r (replay f es (rloc_step t r x)) = rloc_step t r (replay f es x)"
proof (induction es arbitrary: x)
  case Nil
  then show ?case by (simp add: replay_def rloc_step_same)
next
  case (Cons e es)
  show ?case
  proof (cases "f e = t")
    case True
    then show ?thesis by (simp add: replay_def rloc_step_same)
  next
    case False
    have "rloc_step (f e) (mRloc16 e) (rloc_step t r x) = rloc_step t r (rloc_step (f e) (mRloc16 e) x)"
      using False by (intro rloc_step_commute) simp
    then show ?thesis
      using Cons.IH [of "rloc_step (f e) (mRloc16 e) x"] by (simp add: replay_def)
  qed
qed

lemma replay_cong: "(\<And>d. d \<in> set ds \<Longrightarrow> f d = g d) \<Longrightarrow> replay f ds y = replay g ds y"
  unfolding replay_def by (induction ds arbitrary: y) simp_all

lemma replay_snoc: "replay f (ds @ [d]) y = rloc_step (f d) (mRloc16 d) (replay f ds y)"
  by (simp add: replay_def)

lemma replay_update_other:
  assumes "\<And>d. d \<in> set ds \<Longrightarrow> f d \<noteq> Some k"
  shows "replay f ds (y[k := c]) = (replay f ds y)[k := c]"
  using assms
proof (induction ds arbitrary: y)
  case Nil
  then show ?case by (simp add: replay_def)
next
  case (Cons d ds)
  have "rloc_step (f d) (mRloc16 d) (y[k := c]) = (rloc_step (f d) (mRloc16 d) y)[k := c]"
  proof (cases "f d")
    case None
    then show ?thesis by (simp add: rloc_step_def)
  next
    case (Some j)
    with Cons.prems [of d] have "j \<noteq> k" by auto
    with Some show ?thesis by (simp add: rloc_step_def list_update_swap)
  qed
  moreover have "replay f ds ((rloc_step (f d) (mRloc16 d) y)[k := c]) =
                   (replay f ds (rloc_step (f d) (mRloc16 d) y))[k := c]"
    using Cons.prems by (intro Cons.IH) simp
  ultimately show ?case by (simp add: replay_def)
qed

lemma takeWhile_all: "length (takeWhile P xs) = length xs \<Longrightarrow> x \<in> set xs \<Longrightarrow> P x"
proof -
  assume l: "length (takeWhile P xs) = length xs" and x: "x \<in> set xs"
  have "takeWhile P xs = take (length (takeWhile P xs)) xs" by (rule takeWhile_eq_take)
  with l have "takeWhile P xs = xs" by simp
  with x show "P x" by (simp add: takeWhile_eq_all_conv)
qed

lemma takeWhile_before: "i < length (takeWhile P xs) \<Longrightarrow> P (xs ! i)"
  by (metis nth_mem set_takeWhileD takeWhile_nth)

lemma takeWhile_lengthI:
  assumes "j < length xs" "\<not> P (xs ! j)" "\<And>i. i < j \<Longrightarrow> P (xs ! i)"
  shows "length (takeWhile P xs) = j"
proof -
  have "takeWhile P xs = take j xs"
    using assms by (intro takeWhile_eq_take_P_nth) auto
  with assms(1) show ?thesis by simp
qed

lemma hit_index_hit: "hit_index p y < length y \<Longrightarrow> hit p (y ! hit_index p y)"
  unfolding hit_index_def using nth_length_takeWhile [of "\<lambda>ia. \<not> hit p ia" y] by simp

lemma hit_index_before: "i < hit_index p y \<Longrightarrow> \<not> hit p (y ! i)"
  unfolding hit_index_def by (rule takeWhile_before)

lemma hit_index_none: "hit_index p y = length y \<Longrightarrow> ia \<in> set y \<Longrightarrow> \<not> hit p ia"
  unfolding hit_index_def by (rule takeWhile_all)

lemma hit_indexI:
  assumes "j < length y" "hit p (y ! j)" "\<And>i. i < j \<Longrightarrow> \<not> hit p (y ! i)"
  shows "hit_index p y = j"
  unfolding hit_index_def using assms by (intro takeWhile_lengthI) simp_all

lemma free_index_invalid: "free_index y < length y \<Longrightarrow> mStatus (y ! free_index y) = kIaStatusInvalid"
  unfolding free_index_def using nth_length_takeWhile [of "\<lambda>ia. mStatus ia \<noteq> kIaStatusInvalid" y] by simp

lemma hit_transfer:
  assumes "same_prefix p q" "hit q ia"
  shows "hit p ia"
proof -
  from assms have l: "mLength q = mLength p" "unat (mLength q) \<le> PrefixMatch (mPrefix p) (mPrefix q)"
    and m: "mStatus ia \<noteq> kIaStatusInvalid" "mLength q = mPrefixLength (mNetifAddress ia)"
      "unat (mLength q) \<le> PrefixMatch (mAddress (mNetifAddress ia)) (mPrefix q)"
    by (auto simp: same_prefix_def hit_def MatchNetifAddressWithPrefix_def)
  have "unat (mLength q) \<le> PrefixMatch (mPrefix q) (mPrefix p)"
    using l(2) by (simp add: PrefixMatch_sym)
  with m(3) have "unat (mLength q) \<le> PrefixMatch (mAddress (mNetifAddress ia)) (mPrefix p)"
    by (rule PrefixMatch_trans)
  with l m show ?thesis by (simp add: hit_def MatchNetifAddressWithPrefix_def)
qed

lemma hit_claim: "hit q (claim d ia) \<longleftrightarrow> same_prefix (cfgPrefix d) q"
  by (simp add: hit_def claim_matches)

lemma same_prefix_refl: "unat (mLength p) \<le> 128 \<Longrightarrow> same_prefix p p"
  by (simp add: same_prefix_def PrefixMatch_refl)

lemma claim_rloc: "(claim d ia)\<lparr>mPrefixAgentRloc := mRloc16 d\<rparr> = claim d ia"
  by (simp add: claim_def)

lemma reconciled_step_settled:
  assumes r: "reconciled pre y" and d: "mDhcp d" and s: "settled d y"
  shows "reconciled (pre @ [d]) (add_prefix d y)"
proof -
  define t where "t = tgt d y"
  have y': "add_prefix d y = rloc_step t (mRloc16 d) y"
    unfolding t_def using d s by (rule add_prefix_settled)
  from r have pre: "\<forall>d0 \<in> set pre. mDhcp d0 \<and> settled d0 y"
    and fp: "replay (\<lambda>d0. tgt d0 y) pre y = y"
    by (simp_all add: reconciled_def)
  have "replay (\<lambda>d0. tgt d0 y) (pre @ [d]) (rloc_step t (mRloc16 d) y) =
          rloc_step t (mRloc16 d) (replay (\<lambda>d0. tgt d0 y) pre (rloc_step t (mRloc16 d) y))"
    unfolding replay_snoc t_def ..
  also have "\<dots> = rloc_step t (mRloc16 d) (replay (\<lambda>d0. tgt d0 y) pre y)"
    by (rule replay_absorb)
  also have "\<dots> = rloc_step t (mRloc16 d) y" unfolding fp ..
  finally show ?thesis
    unfolding reconciled_def y' using pre d s by simp
qed

lemma reconciled_step_claim:
  assumes r: "reconciled pre y" and d: "mDhcp d" and s: "\<not> settled d y"
    and len: "unat (mLength (cfgPrefix d)) \<le> 128"
  shows "reconciled (pre @ [d]) (add_prefix d y)"
proof -
  define k where "k = free_index y"
  define c where "c = claim d (y ! k)"
  have y': "add_prefix d y = y[k := c]"
    unfolding k_def c_def using d s by (rule add_prefix_claim)
  from s have nohit: "hit_index (cfgPrefix d) y = length y" and k: "k < length y"
    using hit_index_le [of "cfgPrefix d" y] free_index_le [of y]
    by (simp_all add: settled_def k_def)
  have inv: "mStatus (y ! k) = kIaStatusInvalid"
    using k unfolding k_def by (rule free_index_invalid)
  from r have pre: "\<forall>d0 \<in> set pre. mDhcp d0 \<and> settled d0 y"
    and fp: "replay (\<lambda>d0. tgt d0 y) pre y = y"
    by (simp_all add: reconciled_def)
  have no: "\<not> hit (cfgPrefix d) (y ! i)" if "i < length y" for i
    using nohit nth_mem [OF that] by (rule hit_index_none)
  \<comment> \<open>the claimed slot is where the prefix is found from now on\<close>
  have hd: "hit_index (cfgPrefix d) (y[k := c]) = k"
  proof (rule hit_indexI)
    show "k < length (y[k := c])" using k by simp
    show "hit (cfgPrefix d) (y[k := c] ! k)"
      using k len by (simp add: c_def hit_claim same_prefix_refl)
    show "\<not> hit (cfgPrefix d) (y[k := c] ! i)" if "i < k" for i
      using that k no [of i] by simp
  qed
  \<comment> \<open>the prefixes served before are found where they were\<close>
  have old: "hit_index (cfgPrefix d0) y < length y \<and> hit_index (cfgPrefix d0) y \<noteq> k \<and>
             hit_index (cfgPrefix d0) (y[k := c]) = hit_index (cfgPrefix d0) y"
    if "d0 \<in> set pre" for d0
  proof -
    define j where "j = hit_index (cfgPrefix d0) y"
    from pre that have "settled d0 y" by blast
    with k have j: "j < length y" by (simp add: settled_def k_def j_def)
    have hj: "hit (cfgPrefix d0) (y ! j)" using j unfolding j_def by (rule hit_index_hit)
    then have jk: "j \<noteq> k" using inv by (auto simp: hit_def)
    have "hit_index (cfgPrefix d0) (y[k := c]) = j"
    proof (rule hit_indexI)
      show "j < length (y[k := c])" using j by simp
      show "hit (cfgPrefix d0) (y[k := c] ! j)" using hj jk by simp
      show "\<not> hit (cfgPrefix d0) (y[k := c] ! i)" if "i < j" for i
      proof (cases "i = k")
        case True
        have "\<not> same_prefix (cfgPrefix d) (cfgPrefix d0)"
        proof
          assume "same_prefix (cfgPrefix d) (cfgPrefix d0)"
          then have "hit (cfgPrefix d) (y ! j)" using hj by (rule hit_transfer)
          with no [OF j] show False ..
        qed
        with True k show ?thesis by (simp add: c_def hit_claim)
      next
        case False
        with that show ?thesis using hit_index_before [of i "cfgPrefix d0" y] by (simp add: j_def)
      qed
    qed
    with j jk show ?thesis by (simp add: j_def)
  qed
  have t_old: "tgt d0 (y[k := c]) = tgt d0 y" "tgt d0 y \<noteq> Some k" "settled d0 (y[k := c])"
    if "d0 \<in> set pre" for d0
    using old [OF that] by (simp_all add: tgt_def settled_def)
  have t_new: "tgt d (y[k := c]) = Some k" "settled d (y[k := c])"
    using hd k by (simp_all add: tgt_def settled_def)
  have "replay (\<lambda>d0. tgt d0 (y[k := c])) pre (y[k := c]) = replay (\<lambda>d0. tgt d0 y) pre (y[k := c])"
    by (rule replay_cong) (rule t_old(1))
  also have "\<dots> = (replay (\<lambda>d0. tgt d0 y) pre y)[k := c]"
    by (rule replay_update_other) (rule t_old(2))
  also have "\<dots> = y[k := c]" unfolding fp ..
  finally have rp: "replay (\<lambda>d0. tgt d0 (y[k := c])) pre (y[k := c]) = y[k := c]" .
  have "rloc_step (Some k) (mRloc16 d) (y[k := c]) = y[k := c]"
    using k by (simp add: rloc_step_def c_def claim_rloc)
  then have "replay (\<lambda>d0. tgt d0 (y[k := c])) (pre @ [d]) (y[k := c]) = y[k := c]"
    unfolding replay_snoc rp t_new(1) .
  then show ?thesis
    unfolding reconciled_def y' using pre d t_old(3) t_new(2) by auto
qed

lemma reconciled_fold:
  assumes "reconciled pre y"
    and "\<forall>d \<in> set suf. mDhcp d \<and> unat (mLength (cfgPrefix d)) \<le> 128"
  shows "reconciled (pre @ suf) (fold add_prefix suf y)"
  using assms
proof (induction suf arbitrary: pre y)
  case Nil
  then show ?case by simp
next
  case (Cons d suf)
  have "reconciled (pre @ [d]) (add_prefix d y)"
  proof (cases "settled d y")
    case True
    with Cons.prems show ?thesis by (intro reconciled_step_settled) simp_all
  next
    case False
    with Cons.prems show ?thesis by (intro reconciled_step_claim) simp_all
  qed
  then have "reconciled ((pre @ [d]) @ suf) (fold add_prefix suf (add_prefix d y))"
    using Cons.prems by (intro Cons.IH) simp_all
  then show ?case by simp
qed

lemma fold_add_prefix_replay:
  assumes "\<forall>d \<in> set ds. mDhcp d \<and> settled d y"
    and "\<And>p. hit_index p z = hit_index p y" "free_index z = free_index y" "length z = length y"
  shows "fold add_prefix ds z = replay (\<lambda>d. tgt d y) ds z"
  using assms
proof (induction ds arbitrary: z)
  case Nil
  then show ?case by (simp add: replay_def)
next
  case (Cons d ds)
  have sz: "settled d z" "tgt d z = tgt d y"
    using Cons.prems by (simp_all add: settled_def tgt_def)
  have dh: "mDhcp d" using Cons.prems by simp
  have step: "add_prefix d z = rloc_step (tgt d y) (mRloc16 d) z"
    using add_prefix_settled [OF dh sz(1)] sz(2) by simp
  have "fold add_prefix ds (rloc_step (tgt d y) (mRloc16 d) z) =
          replay (\<lambda>d. tgt d y) ds (rloc_step (tgt d y) (mRloc16 d) z)"
    using Cons.prems by (intro Cons.IH) simp_all
  then show ?case by (simp add: step replay_def)
qed

lemma add_prefixes_idempotent:
  assumes "\<forall>d \<in> set ds. mDhcp d \<longrightarrow> unat (mLength (cfgPrefix d)) \<le> 128"
  shows "add_prefixes ds (add_prefixes ds y) = add_prefixes ds y"
proof -
  let ?fs = "filter mDhcp ds"
  define z where "z = fold add_prefix ?fs y"
  have "reconciled [] y" by (simp add: reconciled_def replay_def)
  moreover have "\<forall>d \<in> set ?fs. mDhcp d \<and> unat (mLength (cfgPrefix d)) \<le> 128"
    using assms by simp
  ultimately have "reconciled ([] @ ?fs) (fold add_prefix ?fs y)" by (rule reconciled_fold)
  then have s: "\<forall>d \<in> set ?fs. mDhcp d \<and> settled d z" and f: "replay (\<lambda>d. tgt d z) ?fs z = z"
    by (simp_all add: reconciled_def z_def)
  have "fold add_prefix ?fs z = replay (\<lambda>d. tgt d z) ?fs z"
    using s by (rule fold_add_prefix_replay) simp_all
  with f have "fold add_prefix ?fs z = z" by simp
  then have "add_prefixes ?fs (add_prefixes ?fs y) = add_prefixes ?fs y"
    unfolding add_prefixes_def z_def .
  moreover have "add_prefixes ds x = add_prefixes ?fs x" for x
    by (rule add_prefixes_filter)
  ultimately show ?thesis by simp
qed

lemma to_remove_rloc [simp]: "to_remove cs (ia\<lparr>mPrefixAgentRloc := r\<rparr>) = to_remove cs ia"
  by (simp add: to_remove_def)

lemma to_remove_claim [simp]: "\<not> to_remove cs (claim d ia)"
  by (simp add: to_remove_def claim_def)

lemma remove_addresses_kept:
  "ia \<in> set (remove_addresses cs ias) \<Longrightarrow> \<not> to_remove cs ia"
  by (auto simp: remove_addresses_def to_remove_def)

lemma set_update_cases:
  "x \<in> set (xs[j := v]) \<Longrightarrow> x \<in> set xs \<or> (j < length xs \<and> x = v)"
  by (cases "j < length xs") (auto simp: list_update_beyond dest: set_update_subset_insert [THEN subsetD])

lemma add_prefix_kept:
  assumes "\<And>ia. ia \<in> set y \<Longrightarrow> \<not> to_remove cs ia" and "x \<in> set (add_prefix d y)"
  shows "\<not> to_remove cs x"
proof (cases "mDhcp d")
  case False
  with assms show ?thesis by (simp add: add_prefix_not_dhcp)
next
  case True
  show ?thesis
  proof (cases "settled d y")
    case s: True
    show ?thesis
    proof (cases "tgt d y")
      case None
      with assms True s show ?thesis by (simp add: add_prefix_settled rloc_step_def)
    next
      case (Some j)
      with assms(2) True s have "x \<in> set (y[j := (y ! j)\<lparr>mPrefixAgentRloc := mRloc16 d\<rparr>])"
        by (simp add: add_prefix_settled rloc_step_def)
      then have "x \<in> set y \<or> (j < length y \<and> x = (y ! j)\<lparr>mPrefixAgentRloc := mRloc16 d\<rparr>)"
        by (rule set_update_cases)
      then show ?thesis using assms(1) nth_mem [of j y] by auto
    qed
  next
    case False
    with assms(2) True have "x \<in> set (y[free_index y := claim d (y ! free_index y)])"
      by (simp add: add_prefix_claim)
    then have "x \<in> set y \<or> (free_index y < length y \<and> x = claim d (y ! free_index y))"
      by (rule set_update_cases)
    then show ?thesis using assms(1) by auto
  qed
qed

lemma add_prefixes_kept:
  assumes "\<And>ia. ia \<in> set y \<Longrightarrow> \<not> to_remove cs ia" and "x \<in> set (add_prefixes ds y)"
  shows "\<not> to_remove cs x"
  using assms unfolding add_prefixes_def
proof (induction ds arbitrary: y)
  case Nil
  then show ?case by simp
next
  case (Cons d ds)
  have "\<not> to_remove cs ia" if "ia \<in> set (add_prefix d y)" for ia
    using Cons.prems(1) that by (rule add_prefix_kept)
  then show ?case using Cons.prems(2) by (intro Cons.IH [of "add_prefix d y"]) simp_all
qed

lemma remove_nothing:
  assumes "\<And>ia. ia \<in> set y \<Longrightarrow> \<not> to_remove cs ia"
  shows "remove_addresses cs y = y" "remove_calls cs y = []"
  using assms by (simp_all add: remove_addresses_def remove_calls_def map_idI filter_empty_conv)

lemma Start_bound: "mSocketBound c \<Longrightarrow> Start env c = c"
  by (simp add: Start_def)

lemma Stop_closed: "\<not> mSocketBound c \<Longrightarrow> Stop c = c"
  by (simp add: Stop_def)




end
